theory Spec2Isabelle
  imports Complex_Main "HOL-Library.Sublist" "HOL-Library.Multiset" "HOL-Library.Product_Lexorder"
begin

section \<open>JavaScript values used by the retrieval code\<close>

subsection \<open>Numbers\<close>

text \<open>
  A JavaScript \<open>number\<close> is an IEEE-754 double: a finite value, one of the two
  infinities, or \<open>NaN\<close>. A finite double is carried by the real number it denotes; the
  two zeros are one value, which no operation of this program tells apart: \<open>-0 === 0\<close>,
  the sort reads a comparison result by its sign, and the divisor of the only division,
  the product of the square roots of two squared norms that are not zero, is not a zero.
\<close>

datatype number = Num real | PInf | NInf | NaN

text \<open>
  Rounding to the nearest double, ties to even. A positive real in the binade
  \<open>2^k \<le> x < 2^(k+1)\<close> is rounded to a multiple of \<open>2^(k-52)\<close>, below \<open>2^-1022\<close>
  (the subnormal range) to a multiple of \<open>2^-1074\<close>; a result of \<open>2^1024\<close> or more is
  infinite.
\<close>

definition pow2 :: "int \<Rightarrow> real" where
  "pow2 e = (if 0 \<le> e then 2 ^ nat e else 1 / 2 ^ nat (- e))"

definition round_even :: "real \<Rightarrow> int" where
  "round_even q =
     (let f = \<lfloor>q\<rfloor>; d = q - of_int f
      in if d < 1 / 2 then f
         else if 1 / 2 < d then f + 1
         else if even f then f else f + 1)"

definition ulp_exponent :: "real \<Rightarrow> int" where
  "ulp_exponent x = max \<lfloor>log 2 x\<rfloor> (- 1022) - 52"

definition fl_pos :: "real \<Rightarrow> number" where
  "fl_pos x =
     (let e = ulp_exponent x;
          y = of_int (round_even (x / pow2 e)) * pow2 e
      in if pow2 1024 \<le> y then PInf else Num y)"

fun nneg :: "number \<Rightarrow> number" where
  "nneg (Num x) = Num (- x)"
| "nneg PInf = NInf"
| "nneg NInf = PInf"
| "nneg NaN = NaN"

definition fl :: "real \<Rightarrow> number" where
  "fl x = (if x = 0 then Num 0 else if 0 < x then fl_pos x else nneg (fl_pos (- x)))"

text \<open>
  The finite doubles are integral multiples of \<open>2^-1074\<close>, the smallest positive double.
  The predicate is used to state what the arithmetic returns; the program does not
  compute it.
\<close>

definition on_grid :: "real \<Rightarrow> bool" where
  "on_grid y = (\<exists>m::int. y = of_int m * pow2 (- 1074))"

fun is_double :: "number \<Rightarrow> bool" where
  "is_double (Num y) = on_grid y"
| "is_double _ = True"

text \<open>
  The arithmetic of the language: the exact result of the operation on the two doubles,
  rounded once; the special values as IEEE-754 gives them.
\<close>

definition signed_inf :: "bool \<Rightarrow> number" where
  "signed_inf positive = (if positive then PInf else NInf)"

fun nadd :: "number \<Rightarrow> number \<Rightarrow> number" where
  "nadd NaN _ = NaN"
| "nadd _ NaN = NaN"
| "nadd (Num x) (Num y) = fl (x + y)"
| "nadd PInf NInf = NaN"
| "nadd NInf PInf = NaN"
| "nadd PInf _ = PInf"
| "nadd _ PInf = PInf"
| "nadd NInf _ = NInf"
| "nadd _ NInf = NInf"

definition nsub :: "number \<Rightarrow> number \<Rightarrow> number" where
  "nsub x y = nadd x (nneg y)"

fun nmul :: "number \<Rightarrow> number \<Rightarrow> number" where
  "nmul NaN _ = NaN"
| "nmul _ NaN = NaN"
| "nmul (Num x) (Num y) = fl (x * y)"
| "nmul PInf (Num y) = (if y = 0 then NaN else signed_inf (0 < y))"
| "nmul NInf (Num y) = (if y = 0 then NaN else signed_inf (y < 0))"
| "nmul (Num x) PInf = (if x = 0 then NaN else signed_inf (0 < x))"
| "nmul (Num x) NInf = (if x = 0 then NaN else signed_inf (x < 0))"
| "nmul PInf PInf = PInf"
| "nmul NInf NInf = PInf"
| "nmul PInf NInf = NInf"
| "nmul NInf PInf = NInf"

fun ndiv :: "number \<Rightarrow> number \<Rightarrow> number" where
  "ndiv NaN _ = NaN"
| "ndiv _ NaN = NaN"
| "ndiv (Num x) (Num y) =
     (if y = 0 then (if x = 0 then NaN else signed_inf (0 < x)) else fl (x / y))"
| "ndiv (Num x) _ = Num 0"
| "ndiv PInf (Num y) = signed_inf (0 \<le> y)"
| "ndiv NInf (Num y) = signed_inf (y < 0)"
| "ndiv _ _ = NaN"

fun nsqrt :: "number \<Rightarrow> number" where
  "nsqrt (Num x) = (if x < 0 then NaN else fl (sqrt x))"
| "nsqrt PInf = PInf"
| "nsqrt NInf = NaN"
| "nsqrt NaN = NaN"

text \<open>Strict equality \<open>===\<close> on numbers: \<open>NaN\<close> is equal to nothing, itself included.\<close>

fun strict_eq :: "number \<Rightarrow> number \<Rightarrow> bool" where
  "strict_eq NaN _ = False"
| "strict_eq _ NaN = False"
| "strict_eq x y = (x = y)"

text \<open>The comparison \<open>>=\<close> on numbers: false as soon as one side is \<open>NaN\<close>.\<close>

fun nge :: "number \<Rightarrow> number \<Rightarrow> bool" where
  "nge NaN _ = False"
| "nge _ NaN = False"
| "nge PInf _ = True"
| "nge _ NInf = True"
| "nge (Num x) (Num y) = (y \<le> x)"
| "nge _ _ = False"

text \<open>
  An array of numbers is carried by the list of the reals its elements denote; a real
  that is not a double stands for the double nearest to it, as a decimal literal does.
  \<open>xs[i]\<close> as an operand of arithmetic: inside the array it is the stored number, past
  the end it is \<open>undefined\<close>, which arithmetic converts to \<open>NaN\<close>.
\<close>

definition at_index :: "real list \<Rightarrow> nat \<Rightarrow> number" where
  "at_index xs i = (if i < length xs then fl (xs ! i) else NaN)"

subsection \<open>Arrays\<close>

text \<open>
  \<open>Array.prototype.slice(start, end)\<close> for integral arguments: a negative index counts
  from the end, and both indices are clamped to the array.
\<close>

definition relative_index :: "int \<Rightarrow> int \<Rightarrow> int" where
  "relative_index len i = (if i < 0 then max (len + i) 0 else min i len)"

definition slice :: "'a list \<Rightarrow> int \<Rightarrow> int \<Rightarrow> 'a list" where
  "slice xs start fin =
     (let len = int (length xs);
          k = relative_index len start;
          final = relative_index len fin
      in take (nat (final - k)) (drop (nat k) xs))"

definition slice_from :: "'a list \<Rightarrow> int \<Rightarrow> 'a list" where
  "slice_from xs start = slice xs start (int (length xs))"

text \<open>
  \<open>Array.prototype.sort(comparefn)\<close>. The value of the comparison function is read by
  its sign, \<open>NaN\<close> counting as \<open>+0\<close>. The sort is the engine's (V8, under Node): it finds
  the run the array starts with, ascending or strictly descending in the comparison
  function's order, reverses it when it is descending, and then places each remaining
  element into the sorted part in front of it by binary search, behind the elements it
  does not compare less than. This is the engine's sort step by step for an array of
  fewer than 64 elements; a longer array is cut into several such runs that are then
  merged, with the same result whenever the comparison function is consistent.
\<close>

definition sortCompare :: "('a \<Rightarrow> 'a \<Rightarrow> number) \<Rightarrow> 'a \<Rightarrow> 'a \<Rightarrow> int" where
  "sortCompare comparefn x y =
     (case comparefn x y of
        NaN \<Rightarrow> 0
      | PInf \<Rightarrow> 1
      | NInf \<Rightarrow> - 1
      | Num v \<Rightarrow> (if v < 0 then - 1 else if v = 0 then 0 else 1))"

text \<open>How many further elements continue the run whose last element is \<open>prev\<close>.\<close>

fun run_extent :: "('a \<Rightarrow> 'a \<Rightarrow> number) \<Rightarrow> bool \<Rightarrow> 'a \<Rightarrow> 'a list \<Rightarrow> nat" where
  "run_extent comparefn descending prev [] = 0"
| "run_extent comparefn descending prev (x # xs) =
     (if (if descending then 0 \<le> sortCompare comparefn x prev
          else sortCompare comparefn x prev < 0)
      then 0
      else Suc (run_extent comparefn descending x xs))"

text \<open>The initial run, made ascending, and the elements after it.\<close>

definition countAndMakeRun :: "('a \<Rightarrow> 'a \<Rightarrow> number) \<Rightarrow> 'a list \<Rightarrow> 'a list \<times> 'a list" where
  "countAndMakeRun comparefn xs =
     (case xs of
        x0 # x1 # rest \<Rightarrow>
          (let descending = (sortCompare comparefn x1 x0 < 0);
               n = 2 + run_extent comparefn descending x1 rest
           in (if descending then rev (take n xs) else take n xs, drop n xs))
      | _ \<Rightarrow> (xs, []))"

function binarySearch ::
  "('a \<Rightarrow> 'a \<Rightarrow> number) \<Rightarrow> 'a \<Rightarrow> 'a list \<Rightarrow> nat \<Rightarrow> nat \<Rightarrow> nat" where
  "binarySearch comparefn pivot arr left right =
     (if left < right
      then (let mid = left + (right - left) div 2
            in if sortCompare comparefn pivot (arr ! mid) < 0
               then binarySearch comparefn pivot arr left mid
               else binarySearch comparefn pivot arr (mid + 1) right)
      else left)"
  by pat_completeness auto
termination
  by (relation "measure (\<lambda>(c, p, arr, left, right). right - left)") auto

declare binarySearch.simps [simp del]

definition insertPivot :: "('a \<Rightarrow> 'a \<Rightarrow> number) \<Rightarrow> 'a list \<Rightarrow> 'a \<Rightarrow> 'a list" where
  "insertPivot comparefn arr pivot =
     (let left = binarySearch comparefn pivot arr 0 (length arr)
      in take left arr @ pivot # drop left arr)"

definition js_sort :: "('a \<Rightarrow> 'a \<Rightarrow> number) \<Rightarrow> 'a list \<Rightarrow> 'a list" where
  "js_sort comparefn xs =
     (if length xs < 2 then xs
      else (case countAndMakeRun comparefn xs of
              (run, rest) \<Rightarrow> foldl (insertPivot comparefn) run rest))"

text \<open>An \<open>Error\<close> object: the name of its class and its message.\<close>

record js_error =
  name :: string
  message :: string

definition Error :: "string \<Rightarrow> js_error" where
  "Error msg = \<lparr>name = ''Error'', message = msg\<rparr>"

definition TypeError :: "string \<Rightarrow> js_error" where
  "TypeError msg = \<lparr>name = ''TypeError'', message = msg\<rparr>"

section \<open>SimpleMongoRetriever\<close>

text \<open>
  A stored row of the collection, as \<open>initializeVectorStore\<close> inserts it, and the
  document shape the retriever returns.
\<close>

record row =
  content :: string
  metadata :: "(string \<times> string) list"
  embedding :: "real list"

record document =
  pageContent :: string
  docMetadata :: "(string \<times> string) list"

record scored =
  score :: number
  doc :: row

text \<open>
  The embeddings provider is duck-typed: each of its two methods may be absent. A call
  of a present method returns the vectors or throws.
\<close>

record provider =
  embedDocuments :: "(string list \<Rightarrow> js_error + real list list) option"
  embedQuery :: "(string \<Rightarrow> js_error + real list) option"

record retriever =
  collection :: "row list"
  embeddings :: provider
  topK :: int

subsection \<open>cosine\<close>

text \<open>The loop \<open>for (let i = 0; i < a.length; i++)\<close> over the three accumulators.\<close>

function cosine_loop ::
  "real list \<Rightarrow> real list \<Rightarrow> nat \<Rightarrow> number \<times> number \<times> number \<Rightarrow> number \<times> number \<times> number" where
  "cosine_loop a b i (dot, na, nb) =
     (if i < length a
      then cosine_loop a b (Suc i)
             (nadd dot (nmul (at_index a i) (at_index b i)),
              nadd na (nmul (at_index a i) (at_index a i)),
              nadd nb (nmul (at_index b i) (at_index b i)))
      else (dot, na, nb))"
  by pat_completeness auto
termination
  by (relation "measure (\<lambda>(a, b, i, acc). length a - i)") auto

declare cosine_loop.simps [simp del]

definition cosine :: "real list \<Rightarrow> real list \<Rightarrow> number" where
  "cosine a b =
     (case cosine_loop a b 0 (Num 0, Num 0, Num 0) of
        (dot, na, nb) \<Rightarrow>
          if strict_eq na (Num 0) \<or> strict_eq nb (Num 0) then Num 0
          else ndiv dot (nmul (nsqrt na) (nsqrt nb)))"

subsection \<open>getRelevantDocuments\<close>

definition score_row :: "real list \<Rightarrow> row \<Rightarrow> scored" where
  "score_row qVec r = \<lparr>score = cosine qVec (embedding r), doc = r\<rparr>"

definition by_score_desc :: "scored \<Rightarrow> scored \<Rightarrow> number" where
  "by_score_desc a b = nsub (score b) (score a)"

text \<open>
  The place of a score in the order the comparison function sorts by: the larger score
  first. It is used to state what the sort returns; the program does not compute it.
\<close>

definition score_key :: "number \<Rightarrow> int \<times> real" where
  "score_key n =
     (case n of PInf \<Rightarrow> (- 1, 0) | Num v \<Rightarrow> (0, - v) | NInf \<Rightarrow> (1, 0) | NaN \<Rightarrow> (2, 0))"

text \<open>The expression \<open>rows.map(...).sort(...).slice(0, this.topK)\<close>.\<close>

definition scored_hits :: "real list \<Rightarrow> row list \<Rightarrow> int \<Rightarrow> scored list" where
  "scored_hits qVec rows k = slice (js_sort by_score_desc (map (score_row qVec) rows)) 0 k"

definition to_document :: "scored \<Rightarrow> document" where
  "to_document s = \<lparr>pageContent = content (doc s), docMetadata = metadata (doc s)\<rparr>"

text \<open>
  The query vector \<open>qVec\<close>: from \<open>embedQuery\<close>, or else the first vector of
  \<open>embedDocuments([query])\<close>, which is \<open>undefined\<close> (here \<open>None\<close>) when the answer is
  empty.
\<close>

definition query_embedding :: "provider \<Rightarrow> string \<Rightarrow> js_error + real list option" where
  "query_embedding p query =
     (case embedQuery p of
        Some f \<Rightarrow>
          (case f query of
             Inl e \<Rightarrow> Inl e
           | Inr v \<Rightarrow> Inr (Some v))
      | None \<Rightarrow>
          (case embedDocuments p of
             Some g \<Rightarrow>
               (case g [query] of
                  Inl e \<Rightarrow> Inl e
                | Inr [] \<Rightarrow> Inr None
                | Inr (v # _) \<Rightarrow> Inr (Some v))
           | None \<Rightarrow> Inl (Error ''Embeddings provider has no embed method'')))"

text \<open>
  With \<open>qVec\<close> undefined, \<open>cosine\<close> throws a \<open>TypeError\<close> at \<open>a.length\<close> as soon as
  there is a row to score.
\<close>

definition getRelevantDocuments :: "retriever \<Rightarrow> string \<Rightarrow> js_error + document list" where
  "getRelevantDocuments r query =
     (case query_embedding (embeddings r) query of
        Inl e \<Rightarrow> Inl e
      | Inr None \<Rightarrow>
          (if collection r = [] then Inr []
           else Inl (TypeError ''Cannot read properties of undefined (reading 'length')''))
      | Inr (Some qVec) \<Rightarrow>
          Inr (map to_document (scored_hits qVec (collection r) (topK r))))"

section \<open>RAGService\<close>

subsection \<open>Computing the embeddings of the documents\<close>

text \<open>
  The block of \<open>initializeVectorStore\<close> that computes \<open>vectors\<close> from \<open>texts\<close>: the
  batch method when the provider has one, otherwise the loop
  \<open>for (const t of texts)\<close>, which checks for \<open>embedQuery\<close> at every text and pushes
  each result onto \<open>vectors\<close>.
\<close>

fun embed_individually ::
  "provider \<Rightarrow> string list \<Rightarrow> real list list \<Rightarrow> js_error + real list list" where
  "embed_individually p [] vectors = Inr vectors"
| "embed_individually p (t # ts) vectors =
     (case embedQuery p of
        Some f \<Rightarrow>
          (case f t of
             Inl e \<Rightarrow> Inl e
           | Inr v \<Rightarrow> embed_individually p ts (vectors @ [v]))
      | None \<Rightarrow>
          Inl (Error ''Embeddings provider does not expose embedDocuments or embedQuery''))"

definition initializeVectorStore_vectors ::
  "provider \<Rightarrow> string list \<Rightarrow> js_error + real list list" where
  "initializeVectorStore_vectors p texts =
     (case embedDocuments p of
        Some g \<Rightarrow> g texts
      | None \<Rightarrow> embed_individually p texts [])"

text \<open>
  The same block of \<open>createVectorIndexesFromDataset\<close>: here the check for
  \<open>embedQuery\<close> is made once, before the loop.
\<close>

fun embed_each ::
  "(string \<Rightarrow> js_error + real list) \<Rightarrow> string list \<Rightarrow> real list list \<Rightarrow>
   js_error + real list list" where
  "embed_each f [] vectors = Inr vectors"
| "embed_each f (t # ts) vectors =
     (case f t of
        Inl e \<Rightarrow> Inl e
      | Inr v \<Rightarrow> embed_each f ts (vectors @ [v]))"

definition createVectorIndexesFromDataset_vectors ::
  "provider \<Rightarrow> string list \<Rightarrow> js_error + real list list" where
  "createVectorIndexesFromDataset_vectors p texts =
     (case embedDocuments p of
        Some g \<Rightarrow> g texts
      | None \<Rightarrow>
          (case embedQuery p of
             Some f \<Rightarrow> embed_each f texts []
           | None \<Rightarrow> Inl (Error ''Embeddings provider missing embedDocuments/embedQuery'')))"

subsection \<open>Conversation memory\<close>

datatype role = User | Assistant

record turn =
  turn_role :: role
  turn_content :: string

record rag_state =
  retriever :: "retriever option"
  chain_built :: bool
  memory :: "turn list"
  maxMemoryTurns :: int

text \<open>A fresh service: nothing initialised, empty memory, a limit of ten turn pairs.\<close>

definition new_RAGService :: rag_state where
  "new_RAGService =
     \<lparr>retriever = None, chain_built = False, memory = [], maxMemoryTurns = 10\<rparr>"

text \<open>
  The trimming that follows every push:
  \<open>if (memory.length > maxMemoryTurns * 2) memory = memory.slice(-maxMemoryTurns * 2)\<close>.
\<close>

definition trim_memory :: "int \<Rightarrow> turn list \<Rightarrow> turn list" where
  "trim_memory n mem =
     (if int (length mem) > n * 2 then slice_from mem (- n * 2) else mem)"

definition push_turn :: "turn \<Rightarrow> rag_state \<Rightarrow> rag_state" where
  "push_turn t s = s\<lparr>memory := trim_memory (maxMemoryTurns s) (memory s @ [t])\<rparr>"

fun join :: "string \<Rightarrow> string list \<Rightarrow> string" where
  "join sep [] = []"
| "join sep [x] = x"
| "join sep (x # y # ys) = x @ sep @ join sep (y # ys)"

definition render_turn :: "turn \<Rightarrow> string" where
  "render_turn m =
     (if turn_role m = User then ''User: '' @ turn_content m
      else ''Assistant: '' @ turn_content m)"

definition buildConversationHistory :: "rag_state \<Rightarrow> string" where
  "buildConversationHistory s =
     join [CHR 0x0A] (map render_turn (slice_from (memory s) (- maxMemoryTurns s * 2)))"

definition clearMemory :: "rag_state \<Rightarrow> rag_state" where
  "clearMemory s = s\<lparr>memory := []\<rparr>"

definition getMemory :: "rag_state \<Rightarrow> turn list" where
  "getMemory s = memory s"

definition setMaxMemoryTurns :: "int \<Rightarrow> rag_state \<Rightarrow> rag_state" where
  "setMaxMemoryTurns n s =
     s\<lparr>maxMemoryTurns := n, memory := trim_memory n (memory s)\<rparr>"

subsection \<open>query\<close>

definition combineDocuments :: "document list \<Rightarrow> string" where
  "combineDocuments docs =
     join [CHR 0x0A, CHR 0x0A, CHR ''-'', CHR ''-'', CHR ''-'', CHR 0x0A, CHR 0x0A]
       (map pageContent docs)"

text \<open>
  The values the first stage of the chain hands to the prompt. The prompt template, the
  chat model and the output parser behind it are the generation provider: a function
  from these values to the answer, which may throw.
\<close>

record prompt_input =
  prompt_context :: string
  conversation_history :: string
  question :: string

definition chain_invoke ::
  "(prompt_input \<Rightarrow> js_error + string) \<Rightarrow> retriever \<Rightarrow> rag_state \<Rightarrow> string \<Rightarrow>
   js_error + string" where
  "chain_invoke generate r s q =
     (case getRelevantDocuments r q of
        Inl e \<Rightarrow> Inl e
      | Inr docs \<Rightarrow>
          generate \<lparr>prompt_context = combineDocuments docs,
                    conversation_history = buildConversationHistory s,
                    question = q\<rparr>)"

text \<open>
  \<open>query\<close> returns its string, or would raise, together with the state it leaves.
  The guard on the retriever comes first; the user's turn is pushed inside the \<open>try\<close>
  before the chain runs, the assistant's turn after it has returned, and the \<open>catch\<close>
  turns every exception of the chain into the fixed message.
\<close>

definition query ::
  "(prompt_input \<Rightarrow> js_error + string) \<Rightarrow> rag_state \<Rightarrow> string \<Rightarrow>
   (js_error + string) \<times> rag_state" where
  "query generate s q =
     (case retriever s of
        None \<Rightarrow> (Inr ''Vector store not initialized.'', s)
      | Some r \<Rightarrow>
          (let s1 = s\<lparr>chain_built := True\<rparr>;
               s2 = push_turn \<lparr>turn_role = User, turn_content = q\<rparr> s1
           in case chain_invoke generate r s2 q of
                Inr answer \<Rightarrow>
                  (Inr answer, push_turn \<lparr>turn_role = Assistant, turn_content = answer\<rparr> s2)
              | Inl e \<Rightarrow>
                  (Inr ''An error occurred while processing your request.'', s2)))"

section \<open>The search adapters\<close>

text \<open>
  The process environment is a map from variable names to strings;
  \<open>process.env.X || d\<close> is \<open>d\<close> when the variable is unset or empty.
\<close>

type_synonym env = "string \<rightharpoonup> string"

definition env_or :: "env \<Rightarrow> string \<Rightarrow> string \<Rightarrow> string" where
  "env_or env k d = (case env k of None \<Rightarrow> d | Some v \<Rightarrow> if v = [] then d else v)"

text \<open>\<open>toLowerCase\<close> on the ASCII letters.\<close>

definition lower_char :: "char \<Rightarrow> char" where
  "lower_char c =
     (case map_of (zip ''ABCDEFGHIJKLMNOPQRSTUVWXYZ'' ''abcdefghijklmnopqrstuvwxyz'') c of
        Some l \<Rightarrow> l
      | None \<Rightarrow> c)"

definition toLowerCase :: "string \<Rightarrow> string" where
  "toLowerCase s = map lower_char s"

definition collName :: "env \<Rightarrow> string" where
  "collName env = env_or env ''MONGODB_COLLECTION'' ''ClusterMM''"

definition bm25IndexName :: "env \<Rightarrow> string" where
  "bm25IndexName env = env_or env ''BM25_INDEX_NAME'' (collName env @ ''_bm25_keyword'')"

definition indexName :: "env \<Rightarrow> string" where
  "indexName env = env_or env ''VECTOR_INDEX_NAME'' (collName env @ ''_vector_search'')"

record search_filter =
  filter_path :: string
  filter_value :: string

datatype search_path = Path string | Paths "string list"

datatype clause =
    Text string search_path
  | Knn string "real list" int
  | Equals string string

datatype search_body = Single clause | Compound clause clause

datatype stage = Search string search_body | Limit int | Project

text \<open>
  The database client of one call: what \<open>connect\<close>, \<open>aggregate\<close> and \<open>close\<close> answer,
  and the external calls made, in order.
\<close>

record 'd mongo =
  connect :: "js_error option"
  aggregate :: "stage list \<Rightarrow> js_error + 'd list"
  close :: "js_error option"

datatype call = Connect | Aggregate "stage list" | Close

text \<open>
  The part of both functions after the flag: connect, then the aggregation inside
  \<open>try\<close>, then \<open>close\<close> in \<open>finally\<close>, whose exception replaces the outcome.
\<close>

definition run_pipeline :: "'d mongo \<Rightarrow> stage list \<Rightarrow> (js_error + 'd list) \<times> call list" where
  "run_pipeline client pipeline =
     (case connect client of
        Some e \<Rightarrow> (Inl e, [Connect])
      | None \<Rightarrow>
          (case close client of
             Some e \<Rightarrow> (Inl e, [Connect, Aggregate pipeline, Close])
           | None \<Rightarrow> (aggregate client pipeline, [Connect, Aggregate pipeline, Close])))"

definition textSearch ::
  "env \<Rightarrow> 'd mongo \<Rightarrow> string \<Rightarrow> search_path option \<Rightarrow> int option \<Rightarrow> search_filter option \<Rightarrow>
   (js_error + 'd list) \<times> call list" where
  "textSearch env client q path limit flt =
     (let bm25Enabled = (toLowerCase (env_or env ''BM25_SEARCH_ENABLED'' ''true'') = ''true'')
      in if \<not> bm25Enabled
         then (Inl (Error ''BM25 text search disabled via BM25_SEARCH_ENABLED=false''), [])
         else
           (let textStage = Text q (case path of None \<Rightarrow> Path ''content'' | Some p \<Rightarrow> p);
                searchBody =
                  (case flt of
                     Some f \<Rightarrow> Compound textStage (Equals (filter_path f) (filter_value f))
                   | None \<Rightarrow> Single textStage)
            in run_pipeline client
                 [Search (bm25IndexName env) searchBody,
                  Limit (case limit of None \<Rightarrow> 10 | Some l \<Rightarrow> l),
                  Project]))"

definition vectorSearch ::
  "env \<Rightarrow> 'd mongo \<Rightarrow> real list \<Rightarrow> int option \<Rightarrow> search_filter option \<Rightarrow>
   (js_error + 'd list) \<times> call list" where
  "vectorSearch env client queryVector k flt =
     (let vectorEnabled = (toLowerCase (env_or env ''VECTOR_SEARCH_ENABLED'' ''true'') = ''true'')
      in if \<not> vectorEnabled
         then (Inl (Error ''Vector search disabled via VECTOR_SEARCH_ENABLED=false''), [])
         else
           (let knnStage = Knn ''embedding'' queryVector (case k of None \<Rightarrow> 5 | Some n \<Rightarrow> n);
                searchBody =
                  (case flt of
                     Some f \<Rightarrow> Compound knnStage (Equals (filter_path f) (filter_value f))
                   | None \<Rightarrow> Single knnStage)
            in run_pipeline client [Search (indexName env) searchBody, Project]))"

section \<open>Sample data\<close>

text \<open>
  The two-chunk corpus of the end-to-end scenario, a provider that has only \<open>embedQuery\<close>,
  a service initialised with them, two generation providers (one that throws, one that
  answers), a database client that answers every call, and an environment with both
  search flags set to \<open>false\<close>. The theorems below are instantiated on them.
\<close>

definition sample_rows :: "row list" where
  "sample_rows =
     [\<lparr>content = ''Vacation: 20 days/year.'', metadata = [(''source'', ''policy.txt'')],
       embedding = [1, 0]\<rparr>,
      \<lparr>content = ''Dress code: casual.'', metadata = [(''source'', ''policy.txt'')],
       embedding = [0, 1]\<rparr>]"

definition sample_provider :: provider where
  "sample_provider =
     \<lparr>embedDocuments = None, embedQuery = Some (\<lambda>t. Inr [real (length t), 1])\<rparr>"

definition sample_retriever :: retriever where
  "sample_retriever = \<lparr>collection = sample_rows, embeddings = sample_provider, topK = 6\<rparr>"

definition ready_service :: rag_state where
  "ready_service = new_RAGService\<lparr>retriever := Some sample_retriever\<rparr>"

definition failing_generate :: "prompt_input \<Rightarrow> js_error + string" where
  "failing_generate p = Inl (Error ''provider unavailable'')"

definition fixed_generate :: "prompt_input \<Rightarrow> js_error + string" where
  "fixed_generate p = Inr ''hello''"

definition sample_client :: "unit mongo" where
  "sample_client = \<lparr>connect = None, aggregate = (\<lambda>p. Inr []), close = None\<rparr>"

definition disabled_env :: env where
  "disabled_env =
     [''BM25_SEARCH_ENABLED'' \<mapsto> ''false'', ''VECTOR_SEARCH_ENABLED'' \<mapsto> ''false'']"

text \<open>
  A query vector and three stored rows of its dimension, all components doubles. The
  squared norm of the second row is above the largest double.
\<close>

definition overflow_query :: "real list" where
  "overflow_query = [pow2 100, 0]"

definition overflow_rows :: "row list" where
  "overflow_rows =
     [\<lparr>content = ''low'', metadata = [], embedding = [0, 1]\<rparr>,
      \<lparr>content = ''huge'', metadata = [], embedding = [pow2 1000, 0]\<rparr>,
      \<lparr>content = ''high'', metadata = [], embedding = [1, 0]\<rparr>]"


section \<open>Rounding to a double\<close>

text \<open>Powers of two, and rounding a real to the nearest integer.\<close>

lemma pow2_powr: "pow2 e = 2 powr (of_int e)"
proof (cases "0 \<le> e")
  case True
  then have "2 powr (of_int e) = (2::real) powr (real (nat e))" by simp
  also have "\<dots> = 2 ^ nat e" by (rule powr_realpow) simp
  finally show ?thesis using True by (simp add: pow2_def)
next
  case False
  then have "(2::real) powr (of_int e) = 2 powr (- real (nat (- e)))" by simp
  also have "\<dots> = 1 / 2 powr (real (nat (- e)))" by (simp add: powr_minus divide_inverse)
  also have "\<dots> = 1 / 2 ^ nat (- e)" by (simp add: powr_realpow)
  finally show ?thesis using False by (simp add: pow2_def)
qed

lemma pow2_pos [simp]: "0 < pow2 e"
  by (simp add: pow2_powr)

lemma pow2_nonneg [simp]: "0 \<le> pow2 e"
  using pow2_pos[of e] by linarith

lemma pow2_nonzero [simp]: "pow2 e \<noteq> 0"
  using pow2_pos[of e] by linarith

lemma pow2_add: "pow2 (a + b) = pow2 a * pow2 b"
  by (simp add: pow2_powr powr_add)

lemma pow2_mono: "a \<le> b \<Longrightarrow> pow2 a \<le> pow2 b"
  by (simp add: pow2_powr)

lemma pow2_strict_mono: "a < b \<Longrightarrow> pow2 a < pow2 b"
  by (simp add: pow2_powr)

lemma pow2_0 [simp]: "pow2 0 = 1"
  by (simp add: pow2_def)

lemma pow2_nat: "pow2 (int n) = 2 ^ n"
  by (simp add: pow2_def)

lemma binade_bounds:
  assumes "0 < x"
  shows "pow2 \<lfloor>log 2 x\<rfloor> \<le> x" and "x < pow2 (\<lfloor>log 2 x\<rfloor> + 1)"
proof -
  have x: "2 powr (log 2 x) = x" using assms by simp
  have "2 powr (of_int \<lfloor>log 2 x\<rfloor>) \<le> 2 powr (log 2 x)"
    by (rule powr_mono) simp_all
  then show "pow2 \<lfloor>log 2 x\<rfloor> \<le> x" using x by (simp add: pow2_powr)
  have "log 2 x < of_int (\<lfloor>log 2 x\<rfloor> + 1)" by linarith
  then have "2 powr (log 2 x) < 2 powr (of_int (\<lfloor>log 2 x\<rfloor> + 1))"
    by (rule powr_less_mono) simp
  then show "x < pow2 (\<lfloor>log 2 x\<rfloor> + 1)" using x by (simp add: pow2_powr)
qed

lemma binade_eq:
  assumes "pow2 k \<le> x" and "x < pow2 (k + 1)"
  shows "\<lfloor>log 2 x\<rfloor> = k"
proof -
  have pos: "0 < x" using assms(1) pow2_pos[of k] by linarith
  have "of_int k \<le> log 2 x"
    using assms(1) pos by (simp add: pow2_powr le_log_iff)
  moreover have "log 2 x < of_int (k + 1)"
    using assms(2) pos by (simp add: pow2_powr log_less_iff)
  ultimately show ?thesis by linarith
qed

lemma round_even_bounds: "of_int (round_even q) \<le> q + 1 / 2" "q - 1 / 2 \<le> of_int (round_even q)"
  by (simp_all add: round_even_def Let_def) linarith+

lemma round_even_eqI:
  assumes "of_int m - 1 / 2 < q" and "q < of_int m + 1 / 2"
  shows "round_even q = m"
proof -
  have "\<bar>of_int (round_even q) - (of_int m :: real)\<bar> < 1"
    using round_even_bounds[of q] assms by linarith
  then have "\<bar>round_even q - m\<bar> < 1"
    by (metis of_int_abs of_int_diff of_int_less_1_iff)
  then show ?thesis by linarith
qed

lemma round_even_of_int [simp]: "round_even (of_int m) = m"
  by (rule round_even_eqI) simp_all

lemma round_even_ge_1: "1 \<le> q \<Longrightarrow> 1 \<le> round_even q"
  using round_even_bounds(2)[of q] by linarith

lemma round_even_nonneg: "0 \<le> q \<Longrightarrow> 0 \<le> round_even q"
  using round_even_bounds(2)[of q] by linarith

text \<open>
  What \<open>fl\<close> returns: never \<open>NaN\<close>, a double, of the sign of its argument, and zero
  only for zero or a positive real below the smallest positive double.
\<close>

lemma ulp_exponent_ge: "- 1074 \<le> ulp_exponent x"
  by (simp add: ulp_exponent_def)

lemma on_grid_0 [simp]: "on_grid 0"
  unfolding on_grid_def by (rule exI[of _ 0]) simp

lemma on_grid_minus: "on_grid y \<Longrightarrow> on_grid (- y)"
  unfolding on_grid_def
proof -
  assume "\<exists>m::int. y = of_int m * pow2 (- 1074)"
  then obtain m :: int where "y = of_int m * pow2 (- 1074)" ..
  then have "- y = of_int (- m) * pow2 (- 1074)" by simp
  then show "\<exists>m::int. - y = of_int m * pow2 (- 1074)" ..
qed

lemma on_grid_diff:
  assumes "on_grid u" "on_grid v"
  shows "on_grid (v - u)"
proof -
  obtain m n :: int where "u = of_int m * pow2 (- 1074)" "v = of_int n * pow2 (- 1074)"
    using assms unfolding on_grid_def by blast
  then have "v - u = of_int (n - m) * pow2 (- 1074)" by (simp add: algebra_simps)
  then show ?thesis unfolding on_grid_def ..
qed

lemma on_grid_pos_ge:
  assumes "on_grid z" "0 < z"
  shows "pow2 (- 1074) \<le> z"
proof -
  obtain m :: int where m: "z = of_int m * pow2 (- 1074)"
    using assms(1) unfolding on_grid_def by blast
  with assms(2) have "0 < (of_int m :: real)"
    using pow2_pos[of "- 1074"] by (simp add: zero_less_mult_iff)
  then have "1 \<le> (of_int m :: real)" by simp
  then have "1 * pow2 (- 1074) \<le> of_int m * pow2 (- 1074)"
    by (rule mult_right_mono) simp
  with m show ?thesis by simp
qed

lemma on_grid_mult_pow2:
  assumes "- 1074 \<le> e"
  shows "on_grid (of_int n * pow2 e)"
proof -
  have "pow2 e = pow2 (e + 1074) * pow2 (- 1074)"
    using pow2_add[of "e + 1074" "- 1074"] by simp
  moreover have "pow2 (e + 1074) = of_int (2 ^ nat (e + 1074))"
    using assms by (simp add: pow2_def)
  ultimately have "of_int n * pow2 e = of_int (n * 2 ^ nat (e + 1074)) * pow2 (- 1074)"
    by simp
  then show ?thesis unfolding on_grid_def ..
qed

lemma ulp_le_self:
  assumes "pow2 (- 1074) \<le> x"
  shows "pow2 (ulp_exponent x) \<le> x"
proof (cases "- 1022 \<le> \<lfloor>log 2 x\<rfloor>")
  case True
  have pos: "0 < x" using assms pow2_pos[of "- 1074"] by linarith
  from True have "ulp_exponent x = \<lfloor>log 2 x\<rfloor> - 52" by (simp add: ulp_exponent_def)
  then have "pow2 (ulp_exponent x) \<le> pow2 \<lfloor>log 2 x\<rfloor>" by (simp add: pow2_mono)
  also have "\<dots> \<le> x" using binade_bounds(1)[OF pos] .
  finally show ?thesis .
next
  case False
  then have "ulp_exponent x = - 1074" by (simp add: ulp_exponent_def)
  with assms show ?thesis by simp
qed

lemma fl_pos_cases:
  assumes "0 < x"
  shows "fl_pos x = PInf \<or>
    (\<exists>y. fl_pos x = Num y \<and> on_grid y \<and> 0 \<le> y \<and> (pow2 (- 1074) \<le> x \<longrightarrow> 0 < y))"
proof -
  let ?e = "ulp_exponent x"
  let ?m = "round_even (x / pow2 ?e)"
  let ?y = "of_int ?m * pow2 ?e"
  have q0: "0 \<le> x / pow2 ?e" using assms by simp
  have m0: "0 \<le> ?m" using round_even_nonneg[OF q0] .
  have y0: "0 \<le> ?y" using m0 by simp
  have g: "on_grid ?y" using on_grid_mult_pow2[OF ulp_exponent_ge] .
  have "0 < ?y" if "pow2 (- 1074) \<le> x"
  proof -
    have "1 \<le> x / pow2 ?e" using ulp_le_self[OF that] by (simp add: pos_le_divide_eq)
    then have "1 \<le> ?m" by (rule round_even_ge_1)
    then have "0 < (of_int ?m :: real)" by simp
    then show ?thesis by simp
  qed
  with y0 g show ?thesis by (auto simp: fl_pos_def Let_def)
qed

lemma fl_cases:
  "(x = 0 \<and> fl x = Num 0) \<or>
   (0 < x \<and> (fl x = PInf \<or> (\<exists>y. fl x = Num y \<and> on_grid y \<and> 0 \<le> y \<and> (pow2 (- 1074) \<le> x \<longrightarrow> 0 < y)))) \<or>
   (x < 0 \<and> (fl x = NInf \<or> (\<exists>y. fl x = Num y \<and> on_grid y \<and> y \<le> 0 \<and> (x \<le> - pow2 (- 1074) \<longrightarrow> y < 0))))"
proof -
  consider "x = 0" | "0 < x" | "x < 0" by linarith
  then show ?thesis
  proof cases
    case 1
    then show ?thesis by (simp add: fl_def)
  next
    case 2
    with fl_pos_cases[OF 2] show ?thesis by (simp add: fl_def)
  next
    case 3
    then have p: "0 < - x" by simp
    have f: "fl x = nneg (fl_pos (- x))" using 3 by (simp add: fl_def)
    from fl_pos_cases[OF p] show ?thesis
    proof
      assume "fl_pos (- x) = PInf"
      with f 3 show ?thesis by simp
    next
      assume "\<exists>y. fl_pos (- x) = Num y \<and> on_grid y \<and> 0 \<le> y \<and> (pow2 (- 1074) \<le> - x \<longrightarrow> 0 < y)"
      then obtain y where y: "fl_pos (- x) = Num y" "on_grid y" "0 \<le> y"
          "pow2 (- 1074) \<le> - x \<longrightarrow> 0 < y" by blast
      have "fl x = Num (- y) \<and> on_grid (- y) \<and> - y \<le> 0 \<and> (x \<le> - pow2 (- 1074) \<longrightarrow> - y < 0)"
        using f y on_grid_minus[OF y(2)] by auto
      with 3 show ?thesis by blast
    qed
  qed
qed

lemma fl_not_NaN [simp]: "fl x \<noteq> NaN"
  using fl_cases[of x] by auto

lemma is_double_fl [simp]: "is_double (fl x)"
  using fl_cases[of x] by auto

lemma fl_0 [simp]: "fl 0 = Num 0"
  by (simp add: fl_def)

text \<open>The sign of the rounded difference of two doubles is the sign of the difference.\<close>

lemma fl_diff_sign:
  assumes "on_grid u" "on_grid v"
  shows "(v = u \<and> fl (v - u) = Num 0) \<or>
    (u < v \<and> (fl (v - u) = PInf \<or> (\<exists>y. fl (v - u) = Num y \<and> 0 < y))) \<or>
    (v < u \<and> (fl (v - u) = NInf \<or> (\<exists>y. fl (v - u) = Num y \<and> y < 0)))"
proof -
  have g: "on_grid (v - u)" using on_grid_diff[OF assms] .
  have gm: "on_grid (u - v)" using on_grid_diff[OF assms(2,1)] .
  consider "v = u" | "u < v" | "v < u" by linarith
  then show ?thesis
  proof cases
    case 1
    then show ?thesis by simp
  next
    case 2
    then have "pow2 (- 1074) \<le> v - u" using on_grid_pos_ge[OF g] by simp
    with fl_cases[of "v - u"] 2 show ?thesis by auto
  next
    case 3
    then have "pow2 (- 1074) \<le> u - v" using on_grid_pos_ge[OF gm] by simp
    then have "v - u \<le> - pow2 (- 1074)" by linarith
    with fl_cases[of "v - u"] 3 show ?thesis by auto
  qed
qed

text \<open>
  Evaluating \<open>fl\<close>: a real in a known binade within half a unit in the last place of a
  double rounds to that double.
\<close>

lemma fl_pos_eqI:
  assumes "pow2 k \<le> x" and "x < pow2 (k + 1)" and "- 1022 \<le> k"
    and "of_int m - 1 / 2 < x / pow2 (k - 52)" and "x / pow2 (k - 52) < of_int m + 1 / 2"
    and "y = of_int m * pow2 (k - 52)" and "y < pow2 1024"
  shows "fl_pos x = Num y"
proof -
  have b: "\<lfloor>log 2 x\<rfloor> = k" using binade_eq[OF assms(1,2)] .
  have e: "ulp_exponent x = k - 52" using assms(3) by (simp add: ulp_exponent_def b)
  have m: "round_even (x / pow2 (k - 52)) = m" using round_even_eqI[OF assms(4,5)] .
  show ?thesis using assms(6,7) by (simp add: fl_pos_def e m Let_def)
qed

lemma fl_eqI:
  assumes "pow2 k \<le> x" and "x < pow2 (k + 1)" and "- 1022 \<le> k"
    and "of_int m - 1 / 2 < x / pow2 (k - 52)" and "x / pow2 (k - 52) < of_int m + 1 / 2"
    and "y = of_int m * pow2 (k - 52)" and "y < pow2 1024"
  shows "fl x = Num y"
proof -
  have "0 < x" using assms(1) pow2_pos[of k] by linarith
  then show ?thesis using fl_pos_eqI[OF assms] by (simp add: fl_def)
qed

lemma fl_pow2:
  assumes "- 1022 \<le> k" and "k \<le> 1023"
  shows "fl (pow2 k) = Num (pow2 k)"
proof (rule fl_eqI[where k = k and m = "2 ^ 52"])
  show "pow2 k \<le> pow2 k" by simp
  show "pow2 k < pow2 (k + 1)" by (simp add: pow2_strict_mono)
  show "- 1022 \<le> k" by (rule assms(1))
  have q: "pow2 k / pow2 (k - 52) = pow2 52"
    using pow2_add[of 52 "k - 52"] by simp
  have p52: "pow2 52 = of_int (2 ^ 52)" by (simp add: pow2_def)
  show "of_int (2 ^ 52) - 1 / 2 < pow2 k / pow2 (k - 52)" by (simp add: q p52)
  show "pow2 k / pow2 (k - 52) < of_int (2 ^ 52) + 1 / 2" by (simp add: q p52)
  show "pow2 k = of_int (2 ^ 52) * pow2 (k - 52)"
    using pow2_add[of 52 "k - 52"] by (simp add: p52)
  show "pow2 k < pow2 1024" using assms(2) by (simp add: pow2_strict_mono)
qed

lemma fl_pos_overflow:
  assumes "pow2 1024 \<le> x"
  shows "fl_pos x = PInf"
proof -
  have pos: "0 < x" using assms pow2_pos[of 1024] by linarith
  define k where "k = \<lfloor>log 2 x\<rfloor>"
  have kb: "pow2 k \<le> x" "x < pow2 (k + 1)" using binade_bounds[OF pos] by (simp_all add: k_def)
  have "pow2 1024 < pow2 (k + 1)" using assms kb(2) by linarith
  then have k: "1024 \<le> k"
    using pow2_mono[of "k + 1" 1024] by (cases "1024 \<le> k") auto
  then have e: "ulp_exponent x = k - 52" by (simp add: ulp_exponent_def k_def)
  have "pow2 52 * pow2 (k - 52) = pow2 k" using pow2_add[of 52 "k - 52"] by simp
  then have "pow2 52 \<le> x / pow2 (k - 52)"
    using kb(1) by (simp add: pos_le_divide_eq)
  moreover have "pow2 52 = of_int (2 ^ 52)" by (simp add: pow2_def)
  ultimately have "of_int (2 ^ 52) - 1 / 2 \<le> (of_int (round_even (x / pow2 (k - 52))) :: real)"
    using round_even_bounds(2)[of "x / pow2 (k - 52)"] by linarith
  then have "(2 ^ 52 :: int) \<le> round_even (x / pow2 (k - 52))" by linarith
  then have "(of_int (2 ^ 52) :: real) \<le> of_int (round_even (x / pow2 (k - 52)))"
    by (simp only: of_int_le_iff)
  then have "of_int (2 ^ 52) * pow2 (k - 52) \<le> of_int (round_even (x / pow2 (k - 52))) * pow2 (k - 52)"
    by (rule mult_right_mono) simp
  moreover have "of_int (2 ^ 52) * pow2 (k - 52) = pow2 k"
    using pow2_add[of 52 "k - 52"] by (simp add: pow2_def)
  moreover have "pow2 1024 \<le> pow2 k" using k by (rule pow2_mono)
  ultimately have "pow2 1024 \<le> of_int (round_even (x / pow2 (k - 52))) * pow2 (k - 52)"
    by linarith
  then show ?thesis by (simp add: fl_pos_def e Let_def)
qed

lemma fl_overflow:
  assumes "pow2 1024 \<le> x"
  shows "fl x = PInf"
proof -
  have "0 < x" using assms pow2_pos[of 1024] by linarith
  then show ?thesis using fl_pos_overflow[OF assms] by (simp add: fl_def)
qed

lemma fl_1 [simp]: "fl 1 = Num 1"
  using fl_pow2[of 0] by simp

lemma fl_2 [simp]: "fl 2 = Num 2"
  using fl_pow2[of 1] by (simp add: pow2_def)

lemma fl_3 [simp]: "fl 3 = Num 3"
  by (rule fl_eqI[where k = 1 and m = "3 * 2 ^ 51"]) (simp_all add: pow2_def)

section \<open>Sorting and slicing\<close>

lemma slice_take: "0 \<le> k \<Longrightarrow> slice xs 0 k = take (nat k) xs"
  by (simp add: slice_def relative_index_def Let_def min_def)

lemma slice_zero_take:
  "slice xs 0 k = take (nat (relative_index (int (length xs)) k)) xs"
  by (simp add: slice_def relative_index_def Let_def)

lemma slice_zero_prefix: "prefix (slice xs 0 k) xs"
  by (simp add: slice_zero_take take_is_prefix)

lemma slice_from_drop:
  "slice_from xs start = drop (nat (relative_index (int (length xs)) start)) xs"
  by (simp add: slice_from_def slice_def relative_index_def Let_def)

text \<open>
  The sort, for a comparison function that agrees with a linear order on a key: the
  initial run is sorted and stable, the binary search finds the place behind the
  elements of a key not above the pivot's, and the whole result is the stable sorting
  of the array by the key.
\<close>

lemma run_extent_le: "run_extent c d prev xs \<le> length xs"
  by (induction xs arbitrary: prev) simp_all

lemma run_extent_ascending:
  fixes k :: "'a \<Rightarrow> 'k::linorder"
  assumes "\<And>x y. x \<in> A \<Longrightarrow> y \<in> A \<Longrightarrow> (sortCompare c x y < 0) = (k x < k y)"
    and "prev \<in> A" and "set xs \<subseteq> A"
  shows "sorted (map k (prev # take (run_extent c False prev xs) xs))"
  using assms(2,3)
proof (induction xs arbitrary: prev)
  case Nil
  show ?case by simp
next
  case (Cons x xs)
  then have x: "x \<in> A" and xs: "set xs \<subseteq> A" by simp_all
  show ?case
  proof (cases "sortCompare c x prev < 0")
    case True
    then show ?thesis by simp
  next
    case False
    then have "\<not> k x < k prev" using assms(1)[OF x Cons.prems(1)] by simp
    then have le: "k prev \<le> k x" by simp
    have "sorted (map k (x # take (run_extent c False x xs) xs))"
      using Cons.IH[OF x xs] .
    with le False show ?thesis by auto
  qed
qed

lemma run_extent_descending:
  fixes k :: "'a \<Rightarrow> 'k::linorder"
  assumes "\<And>x y. x \<in> A \<Longrightarrow> y \<in> A \<Longrightarrow> (sortCompare c x y < 0) = (k x < k y)"
    and "prev \<in> A" and "set xs \<subseteq> A"
  shows "sorted_wrt (\<lambda>a b. k b < k a) (prev # take (run_extent c True prev xs) xs)"
  using assms(2,3)
proof (induction xs arbitrary: prev)
  case Nil
  show ?case by simp
next
  case (Cons x xs)
  then have x: "x \<in> A" and xs: "set xs \<subseteq> A" by simp_all
  show ?case
  proof (cases "0 \<le> sortCompare c x prev")
    case True
    then show ?thesis by simp
  next
    case False
    then have lt: "k x < k prev" using assms(1)[OF x Cons.prems(1)] by simp
    have ih: "sorted_wrt (\<lambda>a b. k b < k a) (x # take (run_extent c True x xs) xs)"
      using Cons.IH[OF x xs] .
    then have "\<forall>y\<in>set (take (run_extent c True x xs) xs). k y < k x" by simp
    then have "\<forall>y\<in>set (take (run_extent c True x xs) xs). k y < k prev"
      using lt by (meson less_trans)
    with lt ih False show ?thesis by simp
  qed
qed

lemma filter_rev_strict:
  fixes k :: "'a \<Rightarrow> 'k::linorder"
  assumes "sorted_wrt (\<lambda>a b. k b < k a) ys"
  shows "filter (\<lambda>x. k x = v) (rev ys) = filter (\<lambda>x. k x = v) ys"
  using assms
proof (induction ys)
  case Nil
  show ?case by simp
next
  case (Cons y ys)
  then have ih: "filter (\<lambda>x. k x = v) (rev ys) = filter (\<lambda>x. k x = v) ys" by simp
  show ?case
  proof (cases "k y = v")
    case True
    have "\<forall>z\<in>set ys. k z \<noteq> v" using Cons.prems True by auto
    then have "filter (\<lambda>x. k x = v) ys = []" by (simp add: filter_empty_conv)
    with ih True show ?thesis by simp
  next
    case False
    with ih show ?thesis by simp
  qed
qed

lemma sorted_rev_strict:
  fixes k :: "'a \<Rightarrow> 'k::linorder"
  assumes "sorted_wrt (\<lambda>a b. k b < k a) ys"
  shows "sorted (map k (rev ys))"
proof -
  have "sorted_wrt (\<lambda>a b. k a < k b) (rev ys)"
    using assms by (simp add: sorted_wrt_rev)
  then have "sorted_wrt (\<lambda>a b. k a \<le> k b) (rev ys)"
    by (rule sorted_wrt_mono_rel[rotated]) simp
  then show ?thesis by (simp add: sorted_map)
qed

lemma binarySearch_position:
  fixes k :: "'a \<Rightarrow> 'k::linorder"
  assumes ck: "\<And>x y. x \<in> A \<Longrightarrow> y \<in> A \<Longrightarrow> (sortCompare c x y < 0) = (k x < k y)"
    and srt: "sorted (map k s)" and piv: "pivot \<in> A" and sub: "set s \<subseteq> A"
  shows "left \<le> right \<Longrightarrow> right \<le> length s \<Longrightarrow>
     (\<forall>i<left. k (s ! i) \<le> k pivot) \<Longrightarrow>
     (\<forall>i. right \<le> i \<and> i < length s \<longrightarrow> k pivot < k (s ! i)) \<Longrightarrow>
     left \<le> binarySearch c pivot s left right \<and> binarySearch c pivot s left right \<le> right \<and>
     (\<forall>i<binarySearch c pivot s left right. k (s ! i) \<le> k pivot) \<and>
     (\<forall>i. binarySearch c pivot s left right \<le> i \<and> i < length s \<longrightarrow> k pivot < k (s ! i))"
proof (induction "right - left" arbitrary: left right rule: less_induct)
  case less
  show ?case
  proof (cases "left < right")
    case False
    with less.prems have lr: "left = right" by simp
    have eq: "binarySearch c pivot s left right = left"
      using False by (subst binarySearch.simps) simp
    show ?thesis unfolding eq using less.prems lr by simp
  next
    case True
    define mid where "mid = left + (right - left) div 2"
    have mid: "left \<le> mid" "mid < right" using True by (simp_all add: mid_def)
    then have midlen: "mid < length s" using less.prems(2) by simp
    then have midA: "s ! mid \<in> A" using sub nth_mem by blast
    have mono: "i \<le> j \<Longrightarrow> j < length s \<Longrightarrow> k (s ! i) \<le> k (s ! j)" for i j
      using srt by (simp add: sorted_iff_nth_mono)
    show ?thesis
    proof (cases "sortCompare c pivot (s ! mid) < 0")
      case lt: True
      then have klt: "k pivot < k (s ! mid)" using ck[OF piv midA] by simp
      have up: "\<forall>i. mid \<le> i \<and> i < length s \<longrightarrow> k pivot < k (s ! i)"
      proof (intro allI impI)
        fix i assume "mid \<le> i \<and> i < length s"
        then have "k (s ! mid) \<le> k (s ! i)" using mono by simp
        with klt show "k pivot < k (s ! i)" by (rule less_le_trans)
      qed
      have eq: "binarySearch c pivot s left right = binarySearch c pivot s left mid"
        using True lt by (subst binarySearch.simps) (simp add: mid_def Let_def)
      have m1: "mid - left < right - left" using mid by simp
      have m2: "mid \<le> length s" using midlen by simp
      show ?thesis
        unfolding eq using less.hyps[OF m1 mid(1) m2 less.prems(3) up] mid by auto
    next
      case ge: False
      then have kle: "k (s ! mid) \<le> k pivot" using ck[OF piv midA] by simp
      have low: "\<forall>i<mid + 1. k (s ! i) \<le> k pivot"
      proof (intro allI impI)
        fix i assume "i < mid + 1"
        then have "i \<le> mid" by simp
        then have "k (s ! i) \<le> k (s ! mid)" using mono midlen by simp
        with kle show "k (s ! i) \<le> k pivot" by simp
      qed
      have eq: "binarySearch c pivot s left right = binarySearch c pivot s (mid + 1) right"
        using True ge by (subst binarySearch.simps) (simp add: mid_def Let_def)
      have m1: "right - (mid + 1) < right - left" using mid by simp
      have m2: "mid + 1 \<le> right" using mid by simp
      show ?thesis
        unfolding eq using less.hyps[OF m1 m2 less.prems(2) low less.prems(4)] mid by auto
    qed
  qed
qed

lemma insertPivot_stable_sorted:
  fixes k :: "'a \<Rightarrow> 'k::linorder"
  assumes ck: "\<And>x y. x \<in> A \<Longrightarrow> y \<in> A \<Longrightarrow> (sortCompare c x y < 0) = (k x < k y)"
    and srt: "sorted (map k s)" and piv: "pivot \<in> A" and sub: "set s \<subseteq> A"
  shows "mset (insertPivot c s pivot) = add_mset pivot (mset s)"
    and "sorted (map k (insertPivot c s pivot))"
    and "filter (\<lambda>x. k x = v) (insertPivot c s pivot) =
         filter (\<lambda>x. k x = v) s @ (if k pivot = v then [pivot] else [])"
proof -
  define p where "p = binarySearch c pivot s 0 (length s)"
  have pos: "0 \<le> p \<and> p \<le> length s \<and> (\<forall>i<p. k (s ! i) \<le> k pivot) \<and>
      (\<forall>i. p \<le> i \<and> i < length s \<longrightarrow> k pivot < k (s ! i))"
  proof -
    have t: "\<forall>i. length s \<le> i \<and> i < length s \<longrightarrow> k pivot < k (s ! i)" by auto
    have z: "\<forall>i<(0::nat). k (s ! i) \<le> k pivot" by simp
    show ?thesis
      unfolding p_def
      using binarySearch_position[OF ck srt piv sub le0 order_refl z t] by blast
  qed
  have ins: "insertPivot c s pivot = take p s @ pivot # drop p s"
    by (simp add: insertPivot_def p_def Let_def)
  have split: "s = take p s @ drop p s" by simp
  have lo: "\<forall>x\<in>set (take p s). k x \<le> k pivot"
  proof
    fix x assume "x \<in> set (take p s)"
    then obtain i where "i < length (take p s)" "take p s ! i = x"
      by (auto simp: in_set_conv_nth)
    with pos show "k x \<le> k pivot" by auto
  qed
  have hi: "\<forall>x\<in>set (drop p s). k pivot < k x"
  proof
    fix x assume "x \<in> set (drop p s)"
    then obtain i where i: "i < length (drop p s)" "drop p s ! i = x"
      by (auto simp: in_set_conv_nth)
    then have "p + i < length s" "s ! (p + i) = x" using pos by auto
    moreover have "p \<le> p + i" by simp
    ultimately show "k pivot < k x" using pos by blast
  qed
  show "mset (insertPivot c s pivot) = add_mset pivot (mset s)"
  proof -
    have "mset (take p s) + mset (drop p s) = mset s"
      by (metis append_take_drop_id mset_append)
    then show ?thesis by (simp add: ins)
  qed
  have st: "sorted (map k (take p s))" "sorted (map k (drop p s))"
    using srt by (simp_all add: sorted_wrt_take sorted_wrt_drop take_map[symmetric] drop_map[symmetric])
  show "sorted (map k (insertPivot c s pivot))"
  proof -
    have a: "sorted (map k (pivot # drop p s))"
      using st(2) hi by (simp add: less_imp_le)
    have b: "\<forall>x\<in>set (take p s). \<forall>y\<in>set (pivot # drop p s). k x \<le> k y"
    proof (intro ballI)
      fix x y assume x: "x \<in> set (take p s)" and y: "y \<in> set (pivot # drop p s)"
      from x lo have xp: "k x \<le> k pivot" by blast
      have "k pivot \<le> k y"
      proof (cases "y = pivot")
        case True
        then show ?thesis by simp
      next
        case False
        with y have "y \<in> set (drop p s)" by simp
        with hi have "k pivot < k y" by blast
        then show ?thesis by (rule less_imp_le)
      qed
      with xp show "k x \<le> k y" by (rule order_trans)
    qed
    have "sorted (map k (take p s) @ map k (pivot # drop p s))"
      using st(1) a b by (simp add: sorted_append)
    then show ?thesis by (simp add: ins)
  qed
  have "filter (\<lambda>x. k x = v) (take p s @ drop p s) =
      filter (\<lambda>x. k x = v) (take p s) @ filter (\<lambda>x. k x = v) (drop p s)"
    by (rule filter_append)
  then have fsplit: "filter (\<lambda>x. k x = v) s =
      filter (\<lambda>x. k x = v) (take p s) @ filter (\<lambda>x. k x = v) (drop p s)"
    by (simp only: append_take_drop_id)
  show "filter (\<lambda>x. k x = v) (insertPivot c s pivot) =
      filter (\<lambda>x. k x = v) s @ (if k pivot = v then [pivot] else [])"
  proof (cases "k pivot = v")
    case True
    have "\<forall>x\<in>set (drop p s). k x \<noteq> v" using hi True by auto
    then have e: "filter (\<lambda>x. k x = v) (drop p s) = []" by (simp add: filter_empty_conv)
    have "filter (\<lambda>x. k x = v) s = filter (\<lambda>x. k x = v) (take p s) @ filter (\<lambda>x. k x = v) (drop p s)"
      by (rule fsplit)
    with e True show ?thesis by (simp add: ins)
  next
    case False
    have "filter (\<lambda>x. k x = v) s = filter (\<lambda>x. k x = v) (take p s) @ filter (\<lambda>x. k x = v) (drop p s)"
      by (rule fsplit)
    with False show ?thesis by (simp add: ins)
  qed
qed

lemma foldl_insertPivot:
  fixes k :: "'a \<Rightarrow> 'k::linorder"
  assumes ck: "\<And>x y. x \<in> A \<Longrightarrow> y \<in> A \<Longrightarrow> (sortCompare c x y < 0) = (k x < k y)"
  shows "set cur \<subseteq> A \<Longrightarrow> set rest \<subseteq> A \<Longrightarrow> mset cur = mset pre \<Longrightarrow> sorted (map k cur) \<Longrightarrow>
     (\<forall>v. filter (\<lambda>x. k x = v) cur = filter (\<lambda>x. k x = v) pre) \<Longrightarrow>
     mset (foldl (insertPivot c) cur rest) = mset (pre @ rest) \<and>
     sorted (map k (foldl (insertPivot c) cur rest)) \<and>
     (\<forall>v. filter (\<lambda>x. k x = v) (foldl (insertPivot c) cur rest) =
          filter (\<lambda>x. k x = v) (pre @ rest))"
proof (induction rest arbitrary: cur pre)
  case Nil
  then show ?case by simp
next
  case (Cons p rest)
  from Cons.prems have pA: "p \<in> A" and restA: "set rest \<subseteq> A" by simp_all
  let ?cur = "insertPivot c cur p"
  note ip = insertPivot_stable_sorted[OF ck Cons.prems(4) pA Cons.prems(1)]
  have m: "mset ?cur = mset (pre @ [p])" using ip(1) Cons.prems(3) by simp
  have s: "sorted (map k ?cur)" using ip(2) .
  have f: "\<forall>v. filter (\<lambda>x. k x = v) ?cur = filter (\<lambda>x. k x = v) (pre @ [p])"
    using ip(3) Cons.prems(5) by simp
  have "set ?cur = set (pre @ [p])" using m by (metis set_mset_mset)
  moreover have "set pre = set cur" using Cons.prems(3) by (metis set_mset_mset)
  ultimately have a: "set ?cur \<subseteq> A" using Cons.prems(1) pA by simp
  from Cons.IH[OF a restA m s f] show ?case by simp
qed

lemma countAndMakeRun_props:
  fixes k :: "'a \<Rightarrow> 'k::linorder"
  assumes ck: "\<And>x y. x \<in> A \<Longrightarrow> y \<in> A \<Longrightarrow> (sortCompare c x y < 0) = (k x < k y)"
    and sub: "set xs \<subseteq> A" and cr: "countAndMakeRun c xs = (run, rest)"
  shows "\<exists>pre. xs = pre @ rest \<and> mset run = mset pre \<and> sorted (map k run) \<and>
     (\<forall>v. filter (\<lambda>x. k x = v) run = filter (\<lambda>x. k x = v) pre)"
proof (cases xs)
  case Nil
  with cr show ?thesis by (simp add: countAndMakeRun_def)
next
  case (Cons x0 xs')
  show ?thesis
  proof (cases xs')
    case Nil
    with Cons cr have "run = [x0]" "rest = []" "xs = [x0]"
      by (simp_all add: countAndMakeRun_def)
    then show ?thesis by simp
  next
    case (Cons x1 tl)
    with \<open>xs = x0 # xs'\<close> have xs: "xs = x0 # x1 # tl" by simp
    from sub xs have x0: "x0 \<in> A" and x1: "x1 \<in> A" and tl: "set tl \<subseteq> A" by simp_all
    define d where "d = (sortCompare c x1 x0 < 0)"
    define n where "n = 2 + run_extent c d x1 tl"
    have "countAndMakeRun c (x0 # x1 # tl) =
        (if d then rev (take n (x0 # x1 # tl)) else take n (x0 # x1 # tl), drop n (x0 # x1 # tl))"
      unfolding countAndMakeRun_def d_def n_def Let_def by (simp only: list.case)
    then have "(run, rest) = (if d then rev (take n xs) else take n xs, drop n xs)"
      using cr by (simp only: xs)
    then have run: "run = (if d then rev (take n xs) else take n xs)" and rest: "rest = drop n xs"
      by (simp_all only: prod.inject)
    have tk: "take n xs = x0 # x1 # take (run_extent c d x1 tl) tl"
      by (simp add: xs n_def)
    have app: "xs = take n xs @ rest" by (simp add: rest)
    show ?thesis
    proof (cases d)
      case True
      then have lt: "k x1 < k x0" using ck[OF x1 x0] by (simp add: d_def)
      have "sorted_wrt (\<lambda>a b. k b < k a) (x1 # take (run_extent c True x1 tl) tl)"
        using run_extent_descending[OF ck x1 tl] .
      then have "sorted_wrt (\<lambda>a b. k b < k a) (take n xs)"
        using lt True by (auto simp: tk dest: less_trans)
      then have "sorted (map k (rev (take n xs)))"
          "\<forall>v. filter (\<lambda>x. k x = v) (rev (take n xs)) = filter (\<lambda>x. k x = v) (take n xs)"
        using sorted_rev_strict filter_rev_strict by blast+
      with True run app show ?thesis by (intro exI[of _ "take n xs"]) simp
    next
      case False
      then have le: "k x0 \<le> k x1" using ck[OF x1 x0] by (simp add: d_def)
      have "sorted (map k (x1 # take (run_extent c False x1 tl) tl))"
        using run_extent_ascending[OF ck x1 tl] .
      then have "sorted (map k (take n xs))"
        using le False by (auto simp: tk)
      with False run app show ?thesis by (intro exI[of _ "take n xs"]) simp
    qed
  qed
qed

lemma js_sort_stable_sorted:
  fixes k :: "'a \<Rightarrow> 'k::linorder"
  assumes ck: "\<And>x y. x \<in> A \<Longrightarrow> y \<in> A \<Longrightarrow> (sortCompare c x y < 0) = (k x < k y)"
    and sub: "set xs \<subseteq> A"
  shows "mset (js_sort c xs) = mset xs \<and> sorted (map k (js_sort c xs)) \<and>
     (\<forall>v. filter (\<lambda>x. k x = v) (js_sort c xs) = filter (\<lambda>x. k x = v) xs)"
proof (cases "length xs < 2")
  case True
  then have "length xs = 0 \<or> length xs = 1" by linarith
  then have "sorted (map k xs)" by (auto simp: length_Suc_conv)
  with True show ?thesis by (simp add: js_sort_def)
next
  case False
  obtain run rest where cr: "countAndMakeRun c xs = (run, rest)"
    by (cases "countAndMakeRun c xs") auto
  from countAndMakeRun_props[OF ck sub cr]
  obtain pre where pre: "xs = pre @ rest" "mset run = mset pre" "sorted (map k run)"
      "\<forall>v. filter (\<lambda>x. k x = v) run = filter (\<lambda>x. k x = v) pre" by blast
  have "set run = set pre" using pre(2) by (metis set_mset_mset)
  with sub pre(1) have runA: "set run \<subseteq> A" and restA: "set rest \<subseteq> A" by auto
  have js: "js_sort c xs = foldl (insertPivot c) run rest"
    using False cr by (simp add: js_sort_def)
  from foldl_insertPivot[OF ck runA restA pre(2,3,4)] pre(1) js show ?thesis by simp
qed

section \<open>Cosine similarity\<close>

text \<open>
  The score of the vector \<open>[1, 1, 1]\<close> against itself: the squared norms are 3, the
  square root of 3 rounds to \<open>7800463371553962 / 2^52\<close>, the product of the two roots
  rounds to \<open>6755399441055743 / 2^51\<close>, just below 3, and the quotient rounds to the
  double next above 1.
\<close>

lemma fl_sqrt_3: "fl (sqrt 3) = Num (7800463371553962 / 2 ^ 52)"
proof (rule fl_eqI[where k = 0 and m = 7800463371553962])
  have lo: "(7800463371553962 - 1 / 2) / 2 ^ 52 < sqrt 3"
    by (rule real_less_rsqrt) (simp add: power2_eq_square)
  have hi: "sqrt 3 < (7800463371553962 + 1 / 2) / 2 ^ 52"
    by (rule real_less_lsqrt) (simp_all add: power2_eq_square)
  have p: "pow2 (- 52) = 1 / 2 ^ 52" by (simp add: pow2_def)
  show "pow2 0 \<le> sqrt 3" by simp
  show "sqrt 3 < pow2 (0 + 1)" using hi by (simp add: pow2_def)
  show "- 1022 \<le> (0::int)" by simp
  show "of_int 7800463371553962 - 1 / 2 < sqrt 3 / pow2 (0 - 52)"
    using lo by (simp add: p field_simps)
  show "sqrt 3 / pow2 (0 - 52) < of_int 7800463371553962 + 1 / 2"
    using hi by (simp add: p field_simps)
  show "7800463371553962 / 2 ^ 52 = of_int 7800463371553962 * pow2 (0 - 52)"
    by (simp add: p)
  show "7800463371553962 / 2 ^ 52 < pow2 1024"
  proof -
    have "(7800463371553962 / 2 ^ 52 :: real) < pow2 1" by (simp add: pow2_def)
    also have "\<dots> < pow2 1024" by (rule pow2_strict_mono) simp
    finally show ?thesis .
  qed
qed

lemma fl_sqrt_3_squared:
  "fl (7800463371553962 / 2 ^ 52 * (7800463371553962 / 2 ^ 52)) = Num (6755399441055743 / 2 ^ 51)"
proof (rule fl_eqI[where k = 1 and m = 6755399441055743])
  have p: "pow2 (- 51) = 1 / 2 ^ 51" by (simp add: pow2_def)
  show "pow2 1 \<le> 7800463371553962 / 2 ^ 52 * (7800463371553962 / 2 ^ 52)"
    by (simp add: pow2_def)
  show "7800463371553962 / 2 ^ 52 * (7800463371553962 / 2 ^ 52) < pow2 (1 + 1)"
    by (simp add: pow2_def)
  show "- 1022 \<le> (1::int)" by simp
  show "of_int 6755399441055743 - 1 / 2
      < 7800463371553962 / 2 ^ 52 * (7800463371553962 / 2 ^ 52) / pow2 (1 - 52)"
    by (simp add: p)
  show "7800463371553962 / 2 ^ 52 * (7800463371553962 / 2 ^ 52) / pow2 (1 - 52)
      < of_int 6755399441055743 + 1 / 2"
    by (simp add: p)
  show "6755399441055743 / 2 ^ 51 = of_int 6755399441055743 * pow2 (1 - 52)"
    by (simp add: p)
  show "6755399441055743 / 2 ^ 51 < pow2 1024"
  proof -
    have "(6755399441055743 / 2 ^ 51 :: real) < pow2 2" by (simp add: pow2_def)
    also have "\<dots> < pow2 1024" by (rule pow2_strict_mono) simp
    finally show ?thesis .
  qed
qed

lemma fl_3_div: "fl (3 / (6755399441055743 / 2 ^ 51)) = Num (1 + 1 / 2 ^ 52)"
proof (rule fl_eqI[where k = 0 and m = 4503599627370497])
  have p: "pow2 (- 52) = 1 / 2 ^ 52" by (simp add: pow2_def)
  show "pow2 0 \<le> 3 / (6755399441055743 / 2 ^ 51)" by simp
  show "3 / (6755399441055743 / 2 ^ 51) < pow2 (0 + 1)" by (simp add: pow2_def)
  show "- 1022 \<le> (0::int)" by simp
  show "of_int 4503599627370497 - 1 / 2 < 3 / (6755399441055743 / 2 ^ 51) / pow2 (0 - 52)"
    by (simp add: p)
  show "3 / (6755399441055743 / 2 ^ 51) / pow2 (0 - 52) < of_int 4503599627370497 + 1 / 2"
    by (simp add: p)
  show "1 + 1 / 2 ^ 52 = of_int 4503599627370497 * pow2 (0 - 52)"
    by (simp add: p)
  show "1 + 1 / 2 ^ 52 < pow2 1024"
  proof -
    have "(1 + 1 / 2 ^ 52 :: real) < pow2 1" by (simp add: pow2_def)
    also have "\<dots> < pow2 1024" by (rule pow2_strict_mono) simp
    finally show ?thesis .
  qed
qed

lemma cosine_loop_ones:
  "cosine_loop [1, 1, 1] [1, 1, 1] 0 (Num 0, Num 0, Num 0) = (Num 3, Num 3, Num 3)"
  by (simp add: cosine_loop.simps at_index_def)

lemma cosine_ones: "cosine [1, 1, 1] [1, 1, 1] = Num (1 + 1 / 2 ^ 52)"
proof -
  define s :: real where "s = 7800463371553962 / 2 ^ 52"
  define p :: real where "p = 6755399441055743 / 2 ^ 51"
  have s: "fl (sqrt 3) = Num s" unfolding s_def by (rule fl_sqrt_3)
  have ss: "fl (s * s) = Num p" unfolding s_def p_def by (rule fl_sqrt_3_squared)
  have d: "fl (3 / p) = Num (1 + 1 / 2 ^ 52)" unfolding p_def by (rule fl_3_div)
  have p0: "p \<noteq> 0" by (simp add: p_def)
  show ?thesis
    by (simp add: cosine_def cosine_loop_ones s ss d p0)
qed

text \<open>
  A vector of zeros has the squared norm 0 whatever the other vector holds, and the
  guard returns 0.
\<close>

lemma cosine_loop_zero_na:
  assumes "\<forall>x\<in>set a. x = 0"
  shows "fst (snd (cosine_loop a b i (dot, Num 0, nb))) = Num 0"
proof (induction "length a - i" arbitrary: i dot nb)
  case 0
  then show ?case by (simp add: cosine_loop.simps)
next
  case (Suc n)
  then have lt: "i < length a" and n: "n = length a - Suc i" by simp_all
  from lt assms have z: "a ! i = 0" by simp
  show ?case
    using lt Suc.hyps(1)[OF n]
    by (subst cosine_loop.simps) (simp add: at_index_def z)
qed

lemma cosine_loop_zero_nb:
  assumes "length a \<le> length b" and "\<forall>x\<in>set b. x = 0"
  shows "snd (snd (cosine_loop a b i (dot, na, Num 0))) = Num 0"
proof (induction "length a - i" arbitrary: i dot na)
  case 0
  then show ?case by (simp add: cosine_loop.simps)
next
  case (Suc n)
  then have lt: "i < length a" and n: "n = length a - Suc i" by simp_all
  from lt assms have z: "b ! i = 0" and ltb: "i < length b" by simp_all
  show ?case
    using lt ltb Suc.hyps(1)[OF n]
    by (subst cosine_loop.simps) (simp add: at_index_def z)
qed

lemma cosine_zero_query:
  assumes "\<forall>x\<in>set a. x = 0"
  shows "cosine a b = Num 0"
proof -
  obtain dot na nb where r: "cosine_loop a b 0 (Num 0, Num 0, Num 0) = (dot, na, nb)"
    by (cases "cosine_loop a b 0 (Num 0, Num 0, Num 0)") auto
  have "na = Num 0"
    using cosine_loop_zero_na[OF assms, of b 0 "Num 0" "Num 0"] r by simp
  with r show ?thesis by (simp add: cosine_def)
qed

lemma cosine_zero_stored:
  assumes "length a \<le> length b" "\<forall>x\<in>set b. x = 0"
  shows "cosine a b = Num 0"
proof -
  obtain dot na nb where r: "cosine_loop a b 0 (Num 0, Num 0, Num 0) = (dot, na, nb)"
    by (cases "cosine_loop a b 0 (Num 0, Num 0, Num 0)") auto
  have "nb = Num 0"
    using cosine_loop_zero_nb[OF assms, of 0 "Num 0" "Num 0"] r by simp
  with r show ?thesis by (cases na) (simp_all add: cosine_def)
qed

text \<open>
  Powers of two are doubles up to \<open>2^1023\<close>; from \<open>2^1024\<close> on they round to infinity.
\<close>

lemma pow2_mult: "pow2 a * pow2 b = pow2 (a + b)"
  by (simp add: pow2_add)

lemma sqrt_pow2: "sqrt (pow2 (2 * k)) = pow2 k"
proof -
  have "pow2 (2 * k) = pow2 k * pow2 k" by (simp add: pow2_mult)
  then show ?thesis by (simp add: real_sqrt_mult)
qed

lemma pow2_not_neg [simp]: "\<not> pow2 e < 0"
  by (simp add: not_less)

lemma fl_pow2_overflow: "1024 \<le> k \<Longrightarrow> fl (pow2 k) = PInf"
  by (rule fl_overflow) (rule pow2_mono)

lemma fl_minus: "fl (- x) = nneg (fl x)"
  by (cases "fl_pos x"; cases "fl_pos (- x)") (auto simp: fl_def)

text \<open>
  The scores of the three rows of \<open>overflow_rows\<close>: for the second the dot product and
  the squared norm are both infinite, and their quotient is \<open>NaN\<close>. Every comparison
  with that row answers \<open>NaN\<close>, the sort finds the array to be one ascending run, and
  leaves it as it is.
\<close>

lemma overflow_scores:
  "cosine overflow_query [0, 1] = Num 0"
  "cosine overflow_query [pow2 1000, 0] = NaN"
  "cosine overflow_query [1, 0] = Num 1"
proof -
  have s: "sqrt (pow2 200) = pow2 100" using sqrt_pow2[of 100] by simp
  show "cosine overflow_query [0, 1] = Num 0"
    by (simp add: overflow_query_def cosine_def cosine_loop.simps at_index_def pow2_mult
        fl_pow2 fl_pow2_overflow s)
  show "cosine overflow_query [pow2 1000, 0] = NaN"
    by (simp add: overflow_query_def cosine_def cosine_loop.simps at_index_def pow2_mult
        fl_pow2 fl_pow2_overflow s signed_inf_def)
  show "cosine overflow_query [1, 0] = Num 1"
    by (simp add: overflow_query_def cosine_def cosine_loop.simps at_index_def pow2_mult
        fl_pow2 fl_pow2_overflow s)
qed

lemma overflow_hits:
  "scored_hits overflow_query overflow_rows k =
     slice [\<lparr>score = Num 0, doc = overflow_rows ! 0\<rparr>,
            \<lparr>score = NaN, doc = overflow_rows ! 1\<rparr>,
            \<lparr>score = Num 1, doc = overflow_rows ! 2\<rparr>] 0 k"
  by (simp add: scored_hits_def overflow_rows_def score_row_def overflow_scores js_sort_def
      countAndMakeRun_def sortCompare_def by_score_desc_def nsub_def)

text \<open>The scores of the two sample rows for the query vector \<open>[0, 1]\<close>.\<close>

lemma sample_scores:
  "cosine [0, 1] [1, 0] = Num 0"
  "cosine [0, 1] [0, 1] = Num 1"
  by (simp_all add: cosine_def cosine_loop.simps at_index_def)

lemma sample_hits:
  "scored_hits [0, 1] sample_rows 6 =
     [\<lparr>score = Num 1, doc = sample_rows ! 1\<rparr>, \<lparr>score = Num 0, doc = sample_rows ! 0\<rparr>]"
  by (simp add: scored_hits_def sample_rows_def score_row_def sample_scores js_sort_def
      countAndMakeRun_def sortCompare_def by_score_desc_def nsub_def fl_minus
      slice_def relative_index_def)

section \<open>Retrieval\<close>

text \<open>
  The score of a row is a double or \<open>NaN\<close>. On scores that are not \<open>NaN\<close> the
  comparison function \<open>b.score - a.score\<close> is negative exactly when the first score is
  the larger: the difference of two doubles is not rounded to zero.
\<close>

lemma score_key_inject: "score_key a = score_key b \<longleftrightarrow> a = b"
  by (cases a; cases b) (simp_all add: score_key_def)

lemma score_key_nge: "a \<noteq> NaN \<Longrightarrow> b \<noteq> NaN \<Longrightarrow> score_key a \<le> score_key b \<longleftrightarrow> nge a b"
  by (cases a; cases b) (simp_all add: score_key_def)

lemma is_double_ndiv [simp]: "is_double (ndiv x y)"
  by (cases x; cases y) (simp_all add: signed_inf_def)

lemma is_double_cosine [simp]: "is_double (cosine a b)"
  by (simp add: cosine_def split: prod.split)

lemma compare_score_key:
  assumes "score x \<noteq> NaN" "is_double (score x)" "score y \<noteq> NaN" "is_double (score y)"
  shows "(sortCompare by_score_desc x y < 0) = (score_key (score x) < score_key (score y))"
proof (cases "score x")
  case (Num u)
  show ?thesis
  proof (cases "score y")
    case v: (Num v)
    have g: "on_grid u" "on_grid v" using assms Num v by simp_all
    have c: "by_score_desc x y = fl (v - u)"
      by (simp add: by_score_desc_def nsub_def Num v)
    from fl_diff_sign[OF g] show ?thesis
      by (auto simp: c sortCompare_def score_key_def Num v)
  qed (use assms Num in \<open>simp_all add: sortCompare_def by_score_desc_def nsub_def score_key_def\<close>)
next
  case PInf
  with assms show ?thesis
    by (cases "score y") (simp_all add: sortCompare_def by_score_desc_def nsub_def score_key_def)
next
  case NInf
  with assms show ?thesis
    by (cases "score y") (simp_all add: sortCompare_def by_score_desc_def nsub_def score_key_def)
next
  case NaN
  with assms show ?thesis by simp
qed

text \<open>
  When no score is \<open>NaN\<close> the comparison function is an order on the scored rows, and
  the sort returns the stable sorting of the rows by non-increasing score.
\<close>

lemma sorted_scores:
  assumes "\<forall>row\<in>set rows. cosine q (embedding row) \<noteq> NaN"
  shows "mset (js_sort by_score_desc (map (score_row q) rows)) = mset (map (score_row q) rows) \<and>
     sorted_wrt (\<lambda>x y. nge (score x) (score y)) (js_sort by_score_desc (map (score_row q) rows)) \<and>
     (\<forall>v. filter (\<lambda>h. score h = v) (js_sort by_score_desc (map (score_row q) rows)) =
          filter (\<lambda>h. score h = v) (map (score_row q) rows))"
proof -
  let ?S = "map (score_row q) rows"
  let ?T = "js_sort by_score_desc ?S"
  let ?k = "\<lambda>h. score_key (score h)"
  have ok: "score x \<noteq> NaN \<and> is_double (score x)" if "x \<in> set ?S" for x
    using that assms by (auto simp: score_row_def)
  have ck: "(sortCompare by_score_desc x y < 0) = (?k x < ?k y)"
    if "x \<in> set ?S" "y \<in> set ?S" for x y
    using compare_score_key[of x y] ok[OF that(1)] ok[OF that(2)] by simp
  note j = js_sort_stable_sorted[of "set ?S" by_score_desc ?k ?S, OF ck]
  from j have m: "mset ?T = mset ?S" by blast
  from j have s: "sorted (map ?k ?T)" by blast
  from j have f: "filter (\<lambda>x. ?k x = v) ?T = filter (\<lambda>x. ?k x = v) ?S" for v by blast
  from m have st: "set ?T = set ?S" by (metis set_mset_mset)
  from s have "sorted_wrt (\<lambda>x y. ?k x \<le> ?k y) ?T" by (simp add: sorted_map)
  then have sw: "sorted_wrt (\<lambda>x y. nge (score x) (score y)) ?T"
  proof (rule sorted_wrt_mono_rel[rotated])
    fix x y assume "x \<in> set ?T" "y \<in> set ?T" "?k x \<le> ?k y"
    then show "nge (score x) (score y)"
      using ok st score_key_nge by blast
  qed
  have "filter (\<lambda>h. score h = v) ?T = filter (\<lambda>h. score h = v) ?S" for v
    using f[of "score_key v"] by (simp add: score_key_inject)
  with m sw show ?thesis by blast
qed

lemma length_js_sort_scores:
  assumes "\<forall>row\<in>set rows. cosine q (embedding row) \<noteq> NaN"
  shows "length (js_sort by_score_desc (map (score_row q) rows)) = length rows"
proof -
  have "size (mset (js_sort by_score_desc (map (score_row q) rows))) = size (mset (map (score_row q) rows))"
    using sorted_scores[OF assms] by simp
  then show ?thesis by (simp only: size_mset length_map)
qed

text \<open>
  Claim C1, as stated, fails, for stored embeddings of the query's dimension. The score
  of the vector \<open>[1, 1, 1]\<close> against itself is the double next above 1, outside the
  interval from -1 to 1. And when the squared norm of a stored row overflows its score
  is \<open>NaN\<close>; the hits then come back in the order of insertion, a score of 0 before a
  score of 1.
\<close>

theorem retrieval_rounding_overflow_counterexample:
  "map score
     (scored_hits [1, 1, 1]
        [\<lparr>content = ''Dress code: casual.'', metadata = [], embedding = [1, 1, 1]\<rparr>] 6) =
     [Num (1 + 1 / 2 ^ 52)] \<and>
   map score (scored_hits overflow_query overflow_rows 6) = [Num 0, NaN, Num 1]"
  by (simp add: overflow_hits slice_def relative_index_def)
    (simp add: scored_hits_def js_sort_def slice_def relative_index_def score_row_def cosine_ones)

text \<open>
  Claim C1, amended. Whenever the query has an embedding and no stored row's score is
  \<open>NaN\<close>, retrieval returns the documents of the scored hits, and the scores of the hits
  are in non-increasing order: each is \<open>>=\<close> every later one.
\<close>

theorem retrieval_sorted:
  assumes "query_embedding (embeddings r) qtext = Inr (Some q)"
    and "\<forall>row\<in>set (collection r). cosine q (embedding row) \<noteq> NaN"
  shows "getRelevantDocuments r qtext =
       Inr (map to_document (scored_hits q (collection r) (topK r))) \<and>
     sorted_wrt (\<lambda>x y. nge (score x) (score y)) (scored_hits q (collection r) (topK r))"
proof
  show "getRelevantDocuments r qtext =
      Inr (map to_document (scored_hits q (collection r) (topK r)))"
    using assms(1) by (simp add: getRelevantDocuments_def)
  have "sorted_wrt (\<lambda>x y. nge (score x) (score y))
      (js_sort by_score_desc (map (score_row q) (collection r)))"
    using sorted_scores[OF assms(2)] by blast
  then show "sorted_wrt (\<lambda>x y. nge (score x) (score y)) (scored_hits q (collection r) (topK r))"
    by (simp only: scored_hits_def slice_zero_take sorted_wrt_take)
qed

theorem retrieval_sorted_witness:
  "query_embedding (embeddings sample_retriever) [] = Inr (Some [0, 1]) \<and>
   map (\<lambda>row. cosine [0, 1] (embedding row)) (collection sample_retriever) = [Num 0, Num 1] \<and>
   getRelevantDocuments sample_retriever [] =
     Inr (map to_document (scored_hits [0, 1] sample_rows 6)) \<and>
   sorted_wrt (\<lambda>x y. nge (score x) (score y)) (scored_hits [0, 1] sample_rows 6) \<and>
   map score (scored_hits [0, 1] sample_rows 6) = [Num 1, Num 0]"
proof -
  have e: "query_embedding (embeddings sample_retriever) [] = Inr (Some [0, 1])"
    by (simp add: query_embedding_def sample_retriever_def sample_provider_def)
  have m: "map (\<lambda>row. cosine [0, 1] (embedding row)) (collection sample_retriever) = [Num 0, Num 1]"
    by (simp add: sample_retriever_def sample_rows_def sample_scores)
  have d: "\<forall>row\<in>set (collection sample_retriever). cosine [0, 1] (embedding row) \<noteq> NaN"
    by (simp add: sample_retriever_def sample_rows_def sample_scores)
  have c: "collection sample_retriever = sample_rows" "topK sample_retriever = 6"
    by (simp_all add: sample_retriever_def)
  note t = retrieval_sorted [OF e d, unfolded c]
  have "map score (scored_hits [0, 1] sample_rows 6) = [Num 1, Num 0]"
    by (simp add: sample_hits)
  with e m t show ?thesis by blast
qed

text \<open>
  Claim C2. For vectors of equal length, if either is a zero vector the cosine is exactly
  the number 0, not \<open>NaN\<close>; and a zero query vector scores 0 against every stored row,
  whatever the row holds.
\<close>

theorem cosine_zero_norm:
  "(length a = length b \<longrightarrow> (\<forall>x\<in>set a. x = 0) \<or> (\<forall>x\<in>set b. x = 0) \<longrightarrow> cosine a b = Num 0) \<and>
   ((\<forall>x\<in>set q. x = 0) \<longrightarrow> (\<forall>row\<in>set rows. score (score_row q row) = Num 0))"
  using cosine_zero_query cosine_zero_stored by (auto simp: score_row_def)

theorem cosine_zero_norm_witness:
  "length [3, 4 :: real] = length [0, 0 :: real] \<and>
   cosine [3, 4] [0, 0] = Num 0 \<and>
   cosine [0, 0] [3, 4] = Num 0 \<and>
   map (\<lambda>row. score (score_row [0, 0] row)) sample_rows = [Num 0, Num 0]"
proof -
  have "\<forall>row\<in>set sample_rows. score (score_row [0, 0] row) = Num 0"
    using cosine_zero_norm [of "[3, 4]" "[0, 0]" "[0, 0]" sample_rows] by simp
  then have "map (\<lambda>row. score (score_row [0, 0] row)) sample_rows = [Num 0, Num 0]"
    by (simp add: sample_rows_def)
  then show ?thesis
    using cosine_zero_norm [of "[3, 4]" "[0, 0]" "[0, 0]" sample_rows]
      cosine_zero_norm [of "[0, 0]" "[3, 4]" "[0, 0]" sample_rows]
    by simp
qed

text \<open>
  Claim C5, as stated, fails: of three stored rows of the query's dimension the second
  has the score \<open>NaN\<close>, by overflow, the comparison function answers \<open>NaN\<close> for it,
  and the sort leaves the rows where they were. With \<open>k = 1\<close> the hit returned is the
  first row, of score 0, and the row whose score is 1 is left out.
\<close>

theorem retrieval_top_k_overflow_counterexample:
  "map (\<lambda>row. cosine overflow_query (embedding row)) overflow_rows = [Num 0, NaN, Num 1] \<and>
   map (\<lambda>h. content (doc h)) (scored_hits overflow_query overflow_rows 1) = [''low'']"
  by (simp add: overflow_hits slice_def relative_index_def)
    (simp add: overflow_rows_def overflow_scores)

text \<open>
  Claim C5, amended. When no stored row's score is \<open>NaN\<close>, there is a list \<open>T\<close> that is
  a permutation of all scored rows, has non-increasing scores and keeps rows of equal
  score in their order of insertion, such that the hits are a prefix of \<open>T\<close>: its first
  \<open>k\<close> elements for a non-negative \<open>k\<close>, and all of \<open>T\<close> when \<open>k\<close> is at least the
  size of the corpus.
\<close>

theorem retrieval_top_k_stable:
  assumes "\<forall>row\<in>set rows. cosine q (embedding row) \<noteq> NaN"
  shows "\<exists>T.
     mset T = mset (map (score_row q) rows) \<and>
     sorted_wrt (\<lambda>x y. nge (score x) (score y)) T \<and>
     (\<forall>v. filter (\<lambda>h. score h = v) T = filter (\<lambda>h. score h = v) (map (score_row q) rows)) \<and>
     prefix (scored_hits q rows k) T \<and>
     (0 \<le> k \<longrightarrow> scored_hits q rows k = take (nat k) T) \<and>
     (int (length rows) \<le> k \<longrightarrow> scored_hits q rows k = T)"
proof -
  let ?S = "map (score_row q) rows"
  let ?T = "js_sort by_score_desc ?S"
  note s = sorted_scores[OF assms]
  have hits: "0 \<le> k \<longrightarrow> scored_hits q rows k = take (nat k) ?T"
    by (simp add: scored_hits_def slice_take)
  have full: "int (length rows) \<le> k \<longrightarrow> scored_hits q rows k = ?T"
    by (simp add: scored_hits_def slice_take length_js_sort_scores[OF assms])
  have pre: "prefix (scored_hits q rows k) ?T"
    by (simp only: scored_hits_def slice_zero_prefix)
  from s hits full pre show ?thesis by blast
qed

theorem retrieval_top_k_stable_witness:
  "map (\<lambda>row. cosine [0, 1] (embedding row)) sample_rows = [Num 0, Num 1] \<and>
   int (length sample_rows) \<le> 6 \<and>
   (\<exists>T.
     mset T = mset (map (score_row [0, 1]) sample_rows) \<and>
     sorted_wrt (\<lambda>x y. nge (score x) (score y)) T \<and>
     (\<forall>v. filter (\<lambda>h. score h = v) T = filter (\<lambda>h. score h = v) (map (score_row [0, 1]) sample_rows)) \<and>
     scored_hits [0, 1] sample_rows 6 = take 6 T \<and>
     scored_hits [0, 1] sample_rows 6 = T)"
proof -
  have d: "\<forall>row\<in>set sample_rows. cosine [0, 1] (embedding row) \<noteq> NaN"
    by (simp add: sample_rows_def sample_scores)
  have l: "int (length sample_rows) \<le> 6" by (simp add: sample_rows_def)
  have m: "map (\<lambda>row. cosine [0, 1] (embedding row)) sample_rows = [Num 0, Num 1]"
    by (simp add: sample_rows_def sample_scores)
  obtain T where T: "mset T = mset (map (score_row [0, 1]) sample_rows)"
      "sorted_wrt (\<lambda>x y. nge (score x) (score y)) T"
      "\<forall>v. filter (\<lambda>h. score h = v) T = filter (\<lambda>h. score h = v) (map (score_row [0, 1]) sample_rows)"
      "0 \<le> (6 :: int) \<longrightarrow> scored_hits [0, 1] sample_rows 6 = take (nat 6) T"
      "int (length sample_rows) \<le> 6 \<longrightarrow> scored_hits [0, 1] sample_rows 6 = T"
    using retrieval_top_k_stable [OF d, of 6] by blast
  from T(4) have "scored_hits [0, 1] sample_rows 6 = take 6 T" by simp
  moreover from T(5) l have "scored_hits [0, 1] sample_rows 6 = T" by blast
  ultimately show ?thesis using m l T(1-3) by blast
qed

section \<open>Embedding the documents one by one\<close>

lemma embed_each_complete:
  "map f ts = map Inr ws \<Longrightarrow> embed_each f ts acc = Inr (acc @ ws)"
proof (induction ts arbitrary: acc ws)
  case Nil
  then show ?case by simp
next
  case (Cons t ts)
  from Cons.prems obtain w ws' where ws: "ws = w # ws'" "f t = Inr w" "map f ts = map Inr ws'"
    by (cases ws) auto
  from Cons.IH[OF ws(3), of "acc @ [w]"] ws(1,2) show ?case by simp
qed

lemma embed_each_sound:
  "embed_each f ts acc = Inr vs \<Longrightarrow> \<exists>ws. vs = acc @ ws \<and> map f ts = map Inr ws"
proof (induction ts arbitrary: acc)
  case Nil
  then show ?case by simp
next
  case (Cons t ts)
  show ?case
  proof (cases "f t")
    case (Inl e)
    with Cons.prems show ?thesis by simp
  next
    case (Inr w)
    with Cons.prems have "embed_each f ts (acc @ [w]) = Inr vs" by simp
    from Cons.IH[OF this] obtain ws' where "vs = (acc @ [w]) @ ws'" "map f ts = map Inr ws'"
      by blast
    with Inr have "vs = acc @ (w # ws') \<and> map f (t # ts) = map Inr (w # ws')" by simp
    then show ?thesis by blast
  qed
qed

lemma embed_each_result:
  "embed_each f ts [] = Inr vs \<longleftrightarrow> map f ts = map Inr vs"
  using embed_each_sound[of f ts "[]" vs] embed_each_complete[of f ts vs "[]"] by auto

lemma embed_individually_embed_each:
  "embedQuery p = Some f \<Longrightarrow> embed_individually p ts acc = embed_each f ts acc"
  by (induction ts arbitrary: acc) (simp_all split: sum.split)

lemma map_Inr_nth:
  "map f ts = map Inr vs \<longleftrightarrow> length vs = length ts \<and> (\<forall>i<length ts. f (ts ! i) = Inr (vs ! i))"
  by (auto simp: list_eq_iff_nth_eq)

text \<open>
  Claim C8. When the provider has no batch method and has \<open>embedQuery\<close>, both ingestion
  paths return the vectors \<open>vs\<close> exactly when \<open>vs\<close> has one vector per text and its i-th
  vector is the embedding of the i-th text.
\<close>

theorem sequential_fallback_preserves_order:
  assumes "embedDocuments p = None" and "embedQuery p = Some f"
  shows "(initializeVectorStore_vectors p texts = Inr vs \<longleftrightarrow>
       length vs = length texts \<and> (\<forall>i<length texts. f (texts ! i) = Inr (vs ! i))) \<and>
     (createVectorIndexesFromDataset_vectors p texts = Inr vs \<longleftrightarrow>
       length vs = length texts \<and> (\<forall>i<length texts. f (texts ! i) = Inr (vs ! i)))"
proof -
  have "initializeVectorStore_vectors p texts = embed_each f texts []"
    using assms by (simp add: initializeVectorStore_vectors_def embed_individually_embed_each)
  moreover have "createVectorIndexesFromDataset_vectors p texts = embed_each f texts []"
    using assms by (simp add: createVectorIndexesFromDataset_vectors_def)
  ultimately show ?thesis
    by (simp only: embed_each_result map_Inr_nth)
qed

theorem sequential_fallback_preserves_order_witness:
  "embedDocuments sample_provider = None \<and>
   embedQuery sample_provider = Some (\<lambda>t. Inr [real (length t), 1]) \<and>
   initializeVectorStore_vectors sample_provider [''a'', ''bcd''] = Inr [[1, 1], [3, 1]] \<and>
   createVectorIndexesFromDataset_vectors sample_provider [''a'', ''bcd''] = Inr [[1, 1], [3, 1]]"
proof -
  let ?f = "\<lambda>t :: string. (Inr [real (length t), 1] :: js_error + real list)"
  have d: "embedDocuments sample_provider = None"
    by (simp add: sample_provider_def)
  have q: "embedQuery sample_provider = Some ?f"
    by (simp add: sample_provider_def)
  have "?f ([''a'', ''bcd''] ! i) = Inr ([[1, 1], [3, 1]] ! i)" if "i < 2" for i
  proof -
    from that have "i = 0 \<or> i = 1" by auto
    then show ?thesis by auto
  qed
  then have r: "length [[1, 1], [3, 1 :: real]] = length [''a'', ''bcd''] \<and>
      (\<forall>i<length [''a'', ''bcd'']. ?f ([''a'', ''bcd''] ! i) = Inr ([[1, 1], [3, 1]] ! i))"
    by simp
  show ?thesis
    using d q r sequential_fallback_preserves_order [OF d q, of "[''a'', ''bcd'']" "[[1, 1], [3, 1]]"]
    by blast
qed

section \<open>Conversation memory\<close>

lemma trim_memory_recent:
  assumes "1 \<le> n"
  shows "trim_memory n mem = drop (length mem - nat (2 * n)) mem"
proof (cases "int (length mem) > n * 2")
  case True
  with assms have "nat (relative_index (int (length mem)) (- n * 2)) = length mem - nat (2 * n)"
    by (simp add: relative_index_def)
  with True show ?thesis by (simp add: trim_memory_def slice_from_drop)
next
  case False
  then have "length mem - nat (2 * n) = 0" by linarith
  with False show ?thesis by (simp add: trim_memory_def)
qed




lemma maxMemoryTurns_push_turn: "maxMemoryTurns (push_turn t s) = maxMemoryTurns s"
  by (simp add: push_turn_def)

lemma memory_push_turn_recent:
  assumes "1 \<le> maxMemoryTurns s"
  shows "memory (push_turn t s) =
    drop (Suc (length (memory s)) - nat (2 * maxMemoryTurns s)) (memory s @ [t])"
  using trim_memory_recent[OF assms, of "memory s @ [t]"] by (simp add: push_turn_def)

lemma push_turn_bounded:
  assumes "1 \<le> maxMemoryTurns s"
  shows "int (length (memory (push_turn t s))) \<le> 2 * maxMemoryTurns s"
  using assms by (simp add: memory_push_turn_recent)

lemma memory_fold_push_turn:
  assumes "1 \<le> maxMemoryTurns s" "int (length (memory s)) \<le> 2 * maxMemoryTurns s"
  shows "maxMemoryTurns (fold push_turn ts s) = maxMemoryTurns s \<and>
     memory (fold push_turn ts s) =
       drop (length (memory s @ ts) - nat (2 * maxMemoryTurns s)) (memory s @ ts)"
  using assms
proof (induction ts arbitrary: s)
  case Nil
  then have "length (memory s) - nat (2 * maxMemoryTurns s) = 0" by linarith
  then show ?case by simp
next
  case (Cons t ts)
  let ?s' = "push_turn t s"
  let ?K = "nat (2 * maxMemoryTurns s)"
  let ?j = "Suc (length (memory s)) - ?K"
  have n': "1 \<le> maxMemoryTurns ?s'" using Cons.prems by (simp add: maxMemoryTurns_push_turn)
  have b': "int (length (memory ?s')) \<le> 2 * maxMemoryTurns ?s'"
    using push_turn_bounded[OF Cons.prems(1)] by (simp add: maxMemoryTurns_push_turn)
  have m': "memory ?s' = drop ?j (memory s @ [t])"
    using memory_push_turn_recent[OF Cons.prems(1)] .
  have jle: "?j \<le> Suc (length (memory s))" by simp
  have "drop ?j (memory s @ [t]) @ ts = drop ?j ((memory s @ [t]) @ ts)"
    using jle by (simp del: append_assoc)
  then have app: "memory ?s' @ ts = drop ?j (memory s @ t # ts)"
    using m' by simp
  have ih: "maxMemoryTurns (fold push_turn ts ?s') = maxMemoryTurns ?s' \<and>
     memory (fold push_turn ts ?s') =
       drop (length (memory ?s' @ ts) - nat (2 * maxMemoryTurns ?s')) (memory ?s' @ ts)"
    using Cons.IH[OF n' b'] .
  have idx: "(length (memory ?s' @ ts) - ?K) + ?j = length (memory s @ t # ts) - ?K"
    using Cons.prems by (simp add: app)
  have "memory (fold push_turn ts ?s') = drop (length (memory ?s' @ ts) - ?K) (memory ?s' @ ts)"
    using ih by (simp only: maxMemoryTurns_push_turn)
  also have "\<dots> = drop (length (memory ?s' @ ts) - ?K) (drop ?j (memory s @ t # ts))"
    by (simp only: app)
  also have "\<dots> = drop ((length (memory ?s' @ ts) - ?K) + ?j) (memory s @ t # ts)"
    by (simp only: drop_drop)
  also have "\<dots> = drop (length (memory s @ t # ts) - ?K) (memory s @ t # ts)"
    by (simp only: idx)
  finally have "memory (fold push_turn (t # ts) s) =
      drop (length (memory s @ t # ts) - ?K) (memory s @ t # ts)"
    by simp
  moreover have "maxMemoryTurns (fold push_turn (t # ts) s) = maxMemoryTurns s"
    using ih by (simp add: maxMemoryTurns_push_turn)
  ultimately show ?case by blast
qed

text \<open>
  With a limit of at least one turn pair, pushing \<open>2 * maxMemoryTurns + 2\<close> turns onto a
  memory within its bound leaves exactly the last \<open>2 * maxMemoryTurns\<close> of them, and the
  history renders these, oldest first.
\<close>

lemma conversation_history_recent:
  assumes "1 \<le> maxMemoryTurns s" and "int (length (memory s)) \<le> 2 * maxMemoryTurns s"
    and "length ts = nat (2 * maxMemoryTurns s + 2)"
  shows "memory (fold push_turn ts s) = drop 2 ts \<and>
     length (memory (fold push_turn ts s)) = nat (2 * maxMemoryTurns s) \<and>
     buildConversationHistory (fold push_turn ts s) = join [CHR 0x0A] (map render_turn (drop 2 ts))"
proof -
  have f: "maxMemoryTurns (fold push_turn ts s) = maxMemoryTurns s \<and>
      memory (fold push_turn ts s) =
        drop (length (memory s @ ts) - nat (2 * maxMemoryTurns s)) (memory s @ ts)"
    using memory_fold_push_turn[OF assms(1,2)] .
  have "length (memory s @ ts) - nat (2 * maxMemoryTurns s) = length (memory s) + 2"
    using assms(1,3) by simp
  moreover have "length ts - nat (2 * maxMemoryTurns s) = 2"
    using assms(1,3) by simp
  ultimately have m: "memory (fold push_turn ts s) = drop 2 ts"
    using f by simp
  have mx: "maxMemoryTurns (fold push_turn ts s) = maxMemoryTurns s" using f by blast
  have l: "length (drop 2 ts) = nat (2 * maxMemoryTurns s)"
    using assms(1,3) by simp
  have sl: "slice_from (drop 2 ts) (- maxMemoryTurns s * 2) = drop 2 ts"
    using assms(1) l by (simp add: slice_from_drop relative_index_def)
  have h: "buildConversationHistory (fold push_turn ts s) =
      join [CHR 0x0A] (map render_turn (slice_from (drop 2 ts) (- maxMemoryTurns s * 2)))"
    by (simp only: buildConversationHistory_def m mx)
  show ?thesis
  proof (intro conjI)
    show "memory (fold push_turn ts s) = drop 2 ts" by (rule m)
    show "length (memory (fold push_turn ts s)) = nat (2 * maxMemoryTurns s)"
      by (simp only: m l)
    show "buildConversationHistory (fold push_turn ts s) =
        join [CHR 0x0A] (map render_turn (drop 2 ts))"
      by (simp only: h sl)
  qed
qed

text \<open>
  Claim C4. With the limit set to 0, nothing is trimmed: after \<open>setMaxMemoryTurns(0)\<close>
  and one answered query the memory holds both turns and the history renders both,
  because \<open>memory.slice(-0)\<close> is the whole array.
\<close>

theorem memory_limit_zero_not_trimmed:
  "maxMemoryTurns (setMaxMemoryTurns 0 ready_service) = 0 \<and>
   memory (snd (query fixed_generate (setMaxMemoryTurns 0 ready_service) ''hi'')) =
     [\<lparr>turn_role = User, turn_content = ''hi''\<rparr>,
      \<lparr>turn_role = Assistant, turn_content = ''hello''\<rparr>] \<and>
   buildConversationHistory (snd (query fixed_generate (setMaxMemoryTurns 0 ready_service) ''hi'')) =
     ''User: hi'' @ [CHR 0x0A] @ ''Assistant: hello''"
  by (simp add: query_def Let_def chain_invoke_def getRelevantDocuments_def query_embedding_def
      fixed_generate_def setMaxMemoryTurns_def ready_service_def new_RAGService_def
      sample_retriever_def sample_provider_def push_turn_def trim_memory_def
      buildConversationHistory_def slice_from_def slice_def relative_index_def render_turn_def)

section \<open>query\<close>




text \<open>
  Claim C6. Before the retriever is initialised, \<open>query\<close> returns the fixed message
  "Vector store not initialized." as a normal result.
\<close>

theorem query_not_initialized_message:
  "retriever s = None \<Longrightarrow> fst (query generate s q) = Inr ''Vector store not initialized.''"
  by (simp add: query_def)

theorem query_not_initialized_message_witness:
  "retriever new_RAGService = None \<and>
   fst (query failing_generate new_RAGService ''What is the dress code?'') =
     Inr ''Vector store not initialized.''"
  using query_not_initialized_message [of new_RAGService failing_generate "''What is the dress code?''"]
  by (simp add: new_RAGService_def)

text \<open>
  Claim C10. Before the retriever is initialised, \<open>query\<close> leaves the whole state, and
  so the conversation memory, unchanged: the question is not recorded.
\<close>

theorem query_not_initialized_frame:
  "retriever s = None \<Longrightarrow>
   snd (query generate s q) = s \<and> memory (snd (query generate s q)) = memory s"
  by (simp add: query_def)

theorem query_not_initialized_frame_witness:
  "retriever new_RAGService = None \<and>
   snd (query fixed_generate new_RAGService ''What is the dress code?'') = new_RAGService \<and>
   memory (snd (query fixed_generate new_RAGService ''What is the dress code?'')) =
     memory new_RAGService"
  using query_not_initialized_frame [of new_RAGService fixed_generate "''What is the dress code?''"]
  by (simp add: new_RAGService_def)

section \<open>Disabled search paths\<close>

text \<open>With the flag enabled the first external call is the connection.\<close>

lemma search_enabled_connects:
  "toLowerCase (env_or env ''BM25_SEARCH_ENABLED'' ''true'') = ''true'' \<Longrightarrow>
   hd (snd (textSearch env client q path limit flt)) = Connect"
  by (simp add: textSearch_def run_pipeline_def Let_def split: option.split)

text \<open>
  Claim C7, as stated, fails: with the flag set to \<open>false\<close> the error thrown is a plain
  \<open>Error\<close>, not an error named \<open>FeatureDisabledError\<close>.
\<close>

theorem search_disabled_error_name_counterexample:
  "fst (textSearch disabled_env sample_client ''license update'' None None None) =
     Inl (Error ''BM25 text search disabled via BM25_SEARCH_ENABLED=false'') \<and>
   name (Error ''BM25 text search disabled via BM25_SEARCH_ENABLED=false'') = ''Error'' \<and>
   name (Error ''BM25 text search disabled via BM25_SEARCH_ENABLED=false'') \<noteq>
     ''FeatureDisabledError''"
  by (simp add: textSearch_def disabled_env_def env_or_def toLowerCase_def lower_char_def Error_def)

text \<open>
  Claim C7, amended. When the flag of a search path is set to a non-empty value other
  than \<open>true\<close> (in any letter case), the search function throws a plain \<open>Error\<close> whose
  message names the flag, and makes no external call.
\<close>

theorem search_disabled_fails_fast:
  "(env ''BM25_SEARCH_ENABLED'' = Some v \<and> v \<noteq> [] \<and> toLowerCase v \<noteq> ''true'' \<longrightarrow>
      textSearch env client q path limit flt =
        (Inl (Error ''BM25 text search disabled via BM25_SEARCH_ENABLED=false''), [])) \<and>
   (env ''VECTOR_SEARCH_ENABLED'' = Some w \<and> w \<noteq> [] \<and> toLowerCase w \<noteq> ''true'' \<longrightarrow>
      vectorSearch env client queryVector k flt =
        (Inl (Error ''Vector search disabled via VECTOR_SEARCH_ENABLED=false''), []))"
  by (simp add: textSearch_def vectorSearch_def env_or_def)

theorem search_disabled_fails_fast_witness:
  "disabled_env ''BM25_SEARCH_ENABLED'' = Some ''false'' \<and> ''false'' \<noteq> [] \<and>
   toLowerCase ''false'' \<noteq> ''true'' \<and>
   textSearch disabled_env sample_client ''license update'' None None None =
     (Inl (Error ''BM25 text search disabled via BM25_SEARCH_ENABLED=false''), []) \<and>
   disabled_env ''VECTOR_SEARCH_ENABLED'' = Some ''false'' \<and>
   vectorSearch disabled_env sample_client [1, 0] None None =
     (Inl (Error ''Vector search disabled via VECTOR_SEARCH_ENABLED=false''), [])"
  using search_disabled_fails_fast [of disabled_env "''false''" sample_client "''license update''"
      None None None "''false''" "[1, 0]" None]
  by (simp add: disabled_env_def toLowerCase_def lower_char_def)

end
